theory Spec2Isabelle
  imports Complex_Main "HOL-Library.Log_Nat" "HOL-Library.Word"
begin

unbundle bit_operations_syntax

section \<open>Machine integers of the ATmega328 target\<close>

text \<open>
  The firmware is compiled with avr-gcc for an ATmega328: \<open>int\<close> is a 16-bit and
  \<open>long\<close> a 32-bit two's complement integer, \<open>unsigned char\<close> is a byte. Signed values are
  read with \<open>sint\<close>, comparisons of signed values are \<open><s\<close> and \<open>\<le>s\<close>, \<open>>>\<close> on a signed
  value is the arithmetic shift \<open>signed_drop_bit\<close>, a conversion to a wider signed type is
  \<open>scast\<close> and a conversion to a narrower type is \<open>ucast\<close> (it keeps the low bits).
\<close>

type_synonym byte = "8 word"
type_synonym cint = "16 word"
type_synonym clong = "32 word"

section \<open>Tuning state shared with the interrupt handlers\<close>

record tuning =
  laststate :: cint
  tuningknob :: cint
  tuningcount :: clong

text \<open>The phase read by the encoder interrupt: PB0 and PB1, converted from Gray code.\<close>

definition encoder_state :: "byte \<Rightarrow> cint" where
  "encoder_state pinb = (let gray = ucast (pinb AND 0x03) :: cint
                         in signed_drop_bit 1 gray XOR gray)"

text \<open>The step added to \<open>tuningknob\<close>: \<open>((laststate - state) & 0x03) - 2\<close>.\<close>

definition knob_step :: "cint \<Rightarrow> cint \<Rightarrow> cint" where
  "knob_step lst st = ((lst - st) AND 0x03) - 2"

definition ISR_PCINT0 :: "byte \<Rightarrow> tuning \<Rightarrow> tuning" where
  "ISR_PCINT0 pinb ts =
     (let state = encoder_state pinb
      in if state \<noteq> laststate ts
         then ts\<lparr>tuningknob := tuningknob ts + knob_step (laststate ts) state,
                 laststate := state,
                 tuningcount := tuningcount ts + 1\<rparr>
         else ts)"

text \<open>The timer interrupt counts tenths of a second and clears the rotation count.\<close>

definition ISR_TIMER1 :: "clong \<times> tuning \<Rightarrow> clong \<times> tuning" where
  "ISR_TIMER1 s = (fst s + 1, (snd s)\<lparr>tuningcount := 0\<rparr>)"

text \<open>A run of encoder interrupts, one sample of PINB each.\<close>

fun encoder_run :: "byte list \<Rightarrow> tuning \<Rightarrow> tuning" where
  "encoder_run [] ts = ts"
| "encoder_run (p # ps) ts = encoder_run ps (ISR_PCINT0 p ts)"

section \<open>Tuning rate\<close>

text \<open>
  \<open>calc_tuningfactor\<close> multiplies two \<open>long\<close> values and returns the product as an
  \<open>int\<close>: the low 16 bits.
\<close>

definition calc_tuningfactor :: "tuning \<Rightarrow> cint" where
  "calc_tuningfactor ts = ucast (tuningcount ts * signed_drop_bit 1 (tuningcount ts))"

text \<open>\<open>tune_frequency\<close> returns the new frequency (0 for no change) and the tuning state.\<close>

definition tune_frequency :: "clong \<Rightarrow> tuning \<Rightarrow> clong \<times> tuning" where
  "tune_frequency fx ts =
     (if 2 <s tuningknob ts
      then (fx + scast (calc_tuningfactor ts), ts\<lparr>tuningknob := 0\<rparr>)
      else if tuningknob ts <s -2
      then (fx - scast (calc_tuningfactor ts), ts\<lparr>tuningknob := 0\<rparr>)
      else (0, ts))"


text \<open>
  Runs of encoder samples that turn one way: every sample is one phase after (clockwise) or
  one phase before (counter-clockwise) the previous one.
\<close>

fun steps_cw :: "cint \<Rightarrow> byte list \<Rightarrow> bool" where
  "steps_cw p [] = True"
| "steps_cw p (x # xs) = (encoder_state x = (p + 1) AND 3 \<and> steps_cw (encoder_state x) xs)"

fun steps_ccw :: "cint \<Rightarrow> byte list \<Rightarrow> bool" where
  "steps_ccw p [] = True"
| "steps_ccw p (x # xs) = (encoder_state x = (p - 1) AND 3 \<and> steps_ccw (encoder_state x) xs)"

section \<open>The EEPROM\<close>

text \<open>
  The EEPROM is a byte store addressed by the 16-bit value that the firmware casts to a
  pointer. \<open>load_frequency\<close> and \<open>store_frequency\<close> keep a \<open>long\<close> as four bytes, most
  significant first, at \<open>vfo * 4 + band * 8 + OFF_FREQ_DATA\<close>.
\<close>

type_synonym eeprom = "cint \<Rightarrow> byte"

definition OFF_LAST_BAND_USED :: cint where "OFF_LAST_BAND_USED = 0"
definition OFF_LAST_VFO_USED :: cint where "OFF_LAST_VFO_USED = 5"
definition OFF_LAST_SIDEBAND_USED :: cint where "OFF_LAST_SIDEBAND_USED = 6"
definition OFF_VFO_DATA :: cint where "OFF_VFO_DATA = 7"
definition OFF_FREQ_DATA :: cint where "OFF_FREQ_DATA = 64"

text \<open>
  In \<open>(long) 16777216 * hmsb + (long) 65536 * hlsb + (unsigned int) 256 * lmsb + llsb\<close>
  the third product is computed in the 16-bit \<open>unsigned int\<close> and then widened.
\<close>

definition load_frequency :: "eeprom \<Rightarrow> cint \<Rightarrow> cint \<Rightarrow> clong" where
  "load_frequency ee vfo band =
     (let start_adr = vfo * 4 + band * 8 + OFF_FREQ_DATA;
          hmsb = ee start_adr;
          hlsb = ee (start_adr + 1);
          lmsb = ee (start_adr + 2);
          llsb = ee (start_adr + 3)
      in 16777216 * ucast hmsb + 65536 * ucast hlsb
         + ucast ((256 :: cint) * ucast lmsb) + ucast llsb)"

text \<open>
  In \<open>hlsb = hiword - (hmsb << 8)\<close> and \<open>llsb = loword - (lmsb << 8)\<close> the byte is promoted
  to \<open>int\<close>, shifted in 16 bits (avr-gcc keeps the low 16 bits), widened to \<open>long\<close> for the
  subtraction, and the difference is cut to a byte.
\<close>

definition store_frequency :: "eeprom \<Rightarrow> cint \<Rightarrow> cint \<Rightarrow> clong \<Rightarrow> eeprom" where
  "store_frequency ee vfo band f =
     (let start_adr = vfo * 4 + band * 8 + OFF_FREQ_DATA;
          hiword = signed_drop_bit 16 f;
          loword = f - push_bit 16 hiword;
          hmsb = (ucast (signed_drop_bit 8 hiword) :: byte);
          hlsb = (ucast (hiword - scast (push_bit 8 (ucast hmsb :: cint))) :: byte);
          lmsb = (ucast (signed_drop_bit 8 loword) :: byte);
          llsb = (ucast (loword - scast (push_bit 8 (ucast lmsb :: cint))) :: byte)
      in ee(start_adr := hmsb, start_adr + 1 := hlsb, start_adr + 2 := lmsb,
            start_adr + 3 := llsb))"

section \<open>The AD9850 serial interface\<close>

text \<open>
  The DDS hangs on port B. The model keeps the port register and the list of the values
  written to it, oldest first; every \<open>|=\<close> and \<open>&=\<close> on the port is one write.
\<close>

definition DDS_FQ_UD :: nat where "DDS_FQ_UD = 2"
definition DDS_SDATA :: nat where "DDS_SDATA = 3"
definition DDS_W_CLK :: nat where "DDS_W_CLK = 4"

record ddsbus =
  DDS_PORT :: byte
  writes :: "byte list"

definition port_set :: "nat \<Rightarrow> ddsbus \<Rightarrow> ddsbus" where
  "port_set n s = (let v = DDS_PORT s OR push_bit n 1
                   in s\<lparr>DDS_PORT := v, writes := writes s @ [v]\<rparr>)"

definition port_clear :: "nat \<Rightarrow> ddsbus \<Rightarrow> ddsbus" where
  "port_clear n s = (let v = DDS_PORT s AND NOT (push_bit n 1)
                     in s\<lparr>DDS_PORT := v, writes := writes s @ [v]\<rparr>)"

definition spi_send_bit :: "cint \<Rightarrow> ddsbus \<Rightarrow> ddsbus" where
  "spi_send_bit sbit s =
     port_clear DDS_W_CLK (port_set DDS_W_CLK
       (if sbit \<noteq> 0 then port_set DDS_SDATA s else port_clear DDS_SDATA s))"

text \<open>
  The loop \<open>for(t1 = 0; t1 < 16; t1++) { spi_send_bit(word & x); x <<= 1; }\<close> with the
  number of rounds left; the \<open>long\<close> argument \<open>word & x\<close> is cut to the \<open>int\<close> parameter.
\<close>

fun send_word :: "nat \<Rightarrow> clong \<Rightarrow> clong \<Rightarrow> ddsbus \<Rightarrow> ddsbus" where
  "send_word 0 w x s = s"
| "send_word (Suc n) w x s = send_word n w (push_bit 1 x) (spi_send_bit (ucast (w AND x)) s)"

fun send_zeros :: "nat \<Rightarrow> ddsbus \<Rightarrow> ddsbus" where
  "send_zeros 0 s = s"
| "send_zeros (Suc n) s = send_zeros n (spi_send_bit 0 s)"

subsection \<open>Sending the tuning word\<close>

text \<open>
  The part of \<open>set_frequency_ad9850\<close> after the tuning word \<open>fword1\<close> has been computed:
  the split into \<open>hiword\<close> and \<open>loword\<close> and the 40 clock pulses between the two edges of
  FQ_UD.
\<close>

definition ad9850_send :: "clong \<Rightarrow> ddsbus \<Rightarrow> ddsbus" where
  "ad9850_send fword1 s =
     (let hiword = signed_drop_bit 16 fword1;
          loword = fword1 - push_bit 16 hiword;
          s1 = port_clear DDS_FQ_UD s;
          s2 = send_word 16 loword 1 s1;
          s3 = send_word 16 hiword 1 s2;
          s4 = send_zeros 8 s3
      in port_set DDS_FQ_UD s4)"

text \<open>
  \<open>set_frequency_ad9850\<close> computes the tuning word in floating point,
  \<open>fword0 = (double) fx / clk * 65536; fword1 = (long) (fword0 * 65536)\<close>; that computation
  is the parameter \<open>fword\<close> here, so that what is sent is described for every tuning word.
  In the firmware it is \<open>fword1\<close> below.
\<close>

definition set_frequency_ad9850 :: "(clong \<Rightarrow> clong) \<Rightarrow> clong \<Rightarrow> ddsbus \<Rightarrow> ddsbus" where
  "set_frequency_ad9850 fword fx s = ad9850_send (fword fx) s"

subsection \<open>The tuning word\<close>

text \<open>
  \<open>double\<close> is the 32-bit IEEE format on this target: a sign, a significand of 24 bits and a
  power of two. A value is kept here as a pair \<open>(m, e)\<close> that stands for \<open>m * 2 ^ e\<close>, with
  \<open>m\<close> signed and \<open>\<bar>m\<bar> \<le> 2 ^ 24\<close>. Every operation gives the exact result rounded to the
  nearest value of the format, a tie going to the even significand. The values met in
  \<open>set_frequency_ad9850\<close> lie between \<open>2 ^ - 27\<close> and \<open>2 ^ 37\<close> in magnitude, far from the
  limits of the exponent, so the exponent is not bounded here.

  \<open>rne n d\<close> is the integer nearest to \<open>n / d\<close> for \<open>n \<ge> 0\<close> and \<open>d > 0\<close>.
\<close>

definition rne :: "int \<Rightarrow> int \<Rightarrow> int" where
  "rne n d = (let q = n div d; r = n mod d
              in if 2 * r < d \<or> (2 * r = d \<and> even q) then q else q + 1)"

type_synonym float32 = "int \<times> int"

text \<open>
  \<open>round24 n d\<close> is \<open>n / d\<close> (\<open>d > 0\<close>) rounded to 24 significant bits: with \<open>k\<close> the
  difference of the bit lengths, \<open>\<bar>n\<bar> / d\<close> lies between \<open>2 ^ (k - 1)\<close> and \<open>2 ^ (k + 1)\<close>,
  and \<open>s\<close> is the shift that brings it into \<open>[2 ^ 23, 2 ^ 24)\<close>.
\<close>

definition round24 :: "int \<Rightarrow> int \<Rightarrow> float32" where
  "round24 n d =
     (if n = 0 then (0, 0)
      else let k = bitlen \<bar>n\<bar> - bitlen d;
               s = (if \<bar>n\<bar> * 2 ^ nat (24 - k) < 2 ^ 24 * (d * 2 ^ nat (k - 24))
                    then 24 - k else 23 - k)
           in (sgn n * rne (\<bar>n\<bar> * 2 ^ nat s) (d * 2 ^ nat (- s)), - s))"

text \<open>The conversion \<open>(double) x\<close> of a \<open>long\<close>.\<close>

definition float_of_long :: "clong \<Rightarrow> float32" where
  "float_of_long x = round24 (sint x) 1"

text \<open>The quotient \<open>a / b\<close> for a positive \<open>b\<close>.\<close>

definition float_div :: "float32 \<Rightarrow> float32 \<Rightarrow> float32" where
  "float_div a b = (let (m, e) = round24 (fst a) (fst b) in (m, e + snd a - snd b))"

text \<open>The product \<open>a * 65536\<close>, which is exact.\<close>

definition float_times_65536 :: "float32 \<Rightarrow> float32" where
  "float_times_65536 a = (fst a, snd a + 16)"

text \<open>
  The conversion \<open>(long) a\<close> cuts the fraction off. It is undefined in C when the result does
  not fit a \<open>long\<close>; that is \<open>None\<close> here.
\<close>

definition long_of_float :: "float32 \<Rightarrow> clong option" where
  "long_of_float a =
     (let t = sgn (fst a) * ((\<bar>fst a\<bar> * 2 ^ nat (snd a)) div 2 ^ nat (- snd a))
      in if - (2 ^ 31) \<le> t \<and> t < 2 ^ 31 then Some (word_of_int t) else None)"

text \<open>
  The first two statements of \<open>set_frequency_ad9850\<close>, with \<open>clk = 125000000\<close>:
  \<open>fword0 = (double) fx / clk * 65536; fword1 = (long) (fword0 * 65536);\<close>
\<close>

definition fword0 :: "clong \<Rightarrow> float32" where
  "fword0 fx = float_times_65536 (float_div (float_of_long fx) (float_of_long 125000000))"

definition fword1 :: "clong \<Rightarrow> clong option" where
  "fword1 fx = long_of_float (float_times_65536 (fword0 fx))"

text \<open>
  The real number a floating-point value stands for, and the tuning word that the
  specification asks for: \<open>round(f / 125000000 * 2^32)\<close>.
\<close>

definition float_value :: "float32 \<Rightarrow> real" where
  "float_value a = real_of_int (fst a) * 2 powr real_of_int (snd a)"

definition nearest_word :: "clong \<Rightarrow> int" where
  "nearest_word f = round (real_of_int (sint f) / 125000000 * 2 ^ 32)"

subsection \<open>What the AD9850 receives\<close>

text \<open>
  What the AD9850 takes from the port: one bit of SDATA at every rising edge of W_CLK, in
  the order of the edges. The first argument is the port value before the first write.
\<close>

fun clocked_bits :: "byte \<Rightarrow> byte list \<Rightarrow> bool list" where
  "clocked_bits p [] = []"
| "clocked_bits p (q # qs) =
     (if \<not> bit p DDS_W_CLK \<and> bit q DDS_W_CLK then bit q DDS_SDATA # clocked_bits q qs
      else clocked_bits q qs)"

text \<open>
  \<open>emits s bs s'\<close>: from \<open>s\<close> to \<open>s'\<close> the port was only written to, the AD9850 took the bits
  \<open>bs\<close>, FQ_UD kept its level in every write and W_CLK is low at the end.
\<close>

definition emits :: "ddsbus \<Rightarrow> bool list \<Rightarrow> ddsbus \<Rightarrow> bool" where
  "emits s bs s' \<longleftrightarrow>
     (\<exists>ws. writes s' = writes s @ ws \<and> DDS_PORT s' = last (DDS_PORT s # ws) \<and>
           clocked_bits (DDS_PORT s) ws = bs \<and>
           (\<forall>v \<in> set ws. bit v DDS_FQ_UD = bit (DDS_PORT s) DDS_FQ_UD) \<and>
           \<not> bit (DDS_PORT s') DDS_W_CLK)"

section \<open>Bands and the operating state\<close>

text \<open>The band tables. The band index is always one of 0 to 4 where they are read.\<close>

definition c_freq :: "cint \<Rightarrow> clong" where
  "c_freq b = [3650000, 7120000, 14180000, 18100000, 21290000] ! unat b"

definition band_f0 :: "cint \<Rightarrow> clong" where
  "band_f0 b = [3490000, 6990000, 13990000, 18060000, 20990000] ! unat b"

definition band_f1 :: "cint \<Rightarrow> clong" where
  "band_f1 b = [3810000, 7210000, 14360000, 18170000, 21460000] ! unat b"

definition std_sideband :: "cint \<Rightarrow> cint" where
  "std_sideband b = [0, 0, 1, 1, 1] ! unat b"

definition SYNTH_MS_0 :: cint where "SYNTH_MS_0 = 42"
definition SYNTH_MS_1 :: cint where "SYNTH_MS_1 = 50"
definition SYNTH_MS_2 :: cint where "SYNTH_MS_2 = 58"

text \<open>
  The globals of the firmware that the claims are about, the EEPROM, the relay port, and
  the calls made to the two oscillators, oldest first: \<open>dds_calls\<close> holds the arguments of
  \<open>set_frequency_ad9850\<close>, \<open>lo_calls\<close> those of \<open>si5351_set_freq\<close>. The display and the TX
  gain DAC are left out.
\<close>

record radio =
  cur_band :: cint
  cur_vfo :: cint
  sideband :: cint
  f_vfo :: "cint \<Rightarrow> cint \<Rightarrow> clong"
  f_lo :: "cint \<Rightarrow> clong"
  thresh :: cint
  tx_preset :: "cint \<Rightarrow> cint"
  eemem :: eeprom
  PORTD :: byte
  dds_calls :: "clong list"
  lo_calls :: "(cint \<times> clong) list"

text \<open>The values of the globals set by their initialisers, over a given EEPROM.\<close>

definition power_on :: "eeprom \<Rightarrow> radio" where
  "power_on ee =
     \<lparr>cur_band = 0, cur_vfo = 0, sideband = 1,
      f_vfo = (\<lambda>b v. [[3650000, 3650000], [7120000, 7120000], [14200000, 14280000],
                       [18080000, 18150000], [21290000, 21390000]] ! unat b ! unat v),
      f_lo = (\<lambda>i. [8998660, 9001800, 9000000] ! unat i),
      thresh = 5, tx_preset = (\<lambda>i. 0), eemem = ee, PORTD = 0,
      dds_calls = [], lo_calls = []\<rparr>"

text \<open>An erased EEPROM reads \<open>0xFF\<close> at every address.\<close>

definition blank_eeprom :: eeprom where
  "blank_eeprom = (\<lambda>a. 255)"

definition load_band :: "eeprom \<Rightarrow> cint" where
  "load_band ee = (let r = ucast (ee OFF_LAST_BAND_USED) :: cint
                   in if 0 \<le>s r \<and> r \<le>s 4 then r else - 1)"

definition load_vfo :: "eeprom \<Rightarrow> cint \<Rightarrow> cint" where
  "load_vfo ee xband = (let r = ucast (ee (xband + OFF_VFO_DATA)) :: cint
                        in if r = 0 \<or> r = 1 then r else - 1)"

text \<open>In \<open>load_tx_preset\<close> the first byte is shifted left by 8 in the 16-bit \<open>int\<close>.\<close>

definition load_tx_preset :: "eeprom \<Rightarrow> cint \<Rightarrow> cint" where
  "load_tx_preset ee band =
     (let adr = 128 + band * 2;
          v = push_bit 8 (ucast (ee adr) :: cint) + ucast (ee (adr + 1))
      in if 0 \<le>s v \<and> v \<le>s 4095 then v else 2048)"

definition is_mem_freq_ok :: "clong \<Rightarrow> cint \<Rightarrow> cint" where
  "is_mem_freq_ok f cband = (if band_f0 cband \<le>s f \<and> f \<le>s band_f1 cband then 1 else 0)"

definition set_f_vfo :: "cint \<Rightarrow> cint \<Rightarrow> clong \<Rightarrow> radio \<Rightarrow> radio" where
  "set_f_vfo b v f s = s\<lparr>f_vfo := (f_vfo s)(b := (f_vfo s b)(v := f))\<rparr>"

definition program_dds :: "clong \<Rightarrow> radio \<Rightarrow> radio" where
  "program_dds f s = s\<lparr>dds_calls := dds_calls s @ [f]\<rparr>"

definition si5351_set_freq :: "cint \<Rightarrow> clong \<Rightarrow> radio \<Rightarrow> radio" where
  "si5351_set_freq synth freq s = s\<lparr>lo_calls := lo_calls s @ [(synth, freq)]\<rparr>"

definition set_lo :: "cint \<Rightarrow> radio \<Rightarrow> radio" where
  "set_lo sb s = si5351_set_freq SYNTH_MS_0 (f_lo s sb) s"

text \<open>One round of the relay loop in \<open>set_band\<close>.\<close>

definition relay_bit :: "cint \<Rightarrow> nat \<Rightarrow> radio \<Rightarrow> radio" where
  "relay_bit bcode t1 s =
     (if bcode AND push_bit t1 1 \<noteq> 0
      then s\<lparr>PORTD := PORTD s OR push_bit t1 1\<rparr>
      else s\<lparr>PORTD := PORTD s AND NOT (push_bit t1 1)\<rparr>)"

definition set_band :: "cint \<Rightarrow> radio \<Rightarrow> radio" where
  "set_band bcode s =
     (let s0 = s\<lparr>PORTD := PORTD s AND NOT 1 AND NOT 2 AND NOT 4\<rparr>
      in if bcode <s 0 then s0
         else set_lo (std_sideband bcode)
                (relay_bit bcode 2 (relay_bit bcode 1 (relay_bit bcode 0 s0))))"

text \<open>The loop of \<open>main\<close> that loads the five TX presets, with the rounds left.\<close>

fun load_presets :: "nat \<Rightarrow> cint \<Rightarrow> radio \<Rightarrow> radio" where
  "load_presets 0 t1 s = s"
| "load_presets (Suc n) t1 s =
     (let v = load_tx_preset (eemem s) t1;
          v' = (if v <s 0 \<or> 4096 <s v then 2048 else v)
      in load_presets n (t1 + 1) (s\<lparr>tx_preset := (tx_preset s)(t1 := v')\<rparr>))"

text \<open>The part of \<open>main\<close> from \<open>//Load start values\<close> to the end of the preset loop.\<close>

definition startup :: "radio \<Rightarrow> radio" where
  "startup s =
     (let b0 = load_band (eemem s);
          b = (if b0 = - 1 then 2 else b0);
          v0 = load_vfo (eemem s) b;
          v = (if v0 = - 1 then 0 else v0);
          f0 = load_frequency (eemem s) v b;
          f = (if is_mem_freq_ok f0 b = 0 then c_freq b else f0);
          s1 = set_f_vfo b v f (s\<lparr>cur_band := b, cur_vfo := v\<rparr>);
          s2 = set_band b (s1\<lparr>sideband := std_sideband b\<rparr>);
          t0 = (ucast (eemem s2 138) :: cint);
          s3 = s2\<lparr>thresh := (if t0 <s 0 \<or> 12 <s t0 then 8 else t0)\<rparr>;
          s4 = program_dds (f + f_lo s3 (sideband s3)) (program_dds (f + f_lo s3 (sideband s3)) s3);
          s5 = si5351_set_freq SYNTH_MS_2 0 (si5351_set_freq SYNTH_MS_1 0 (set_lo (sideband s4) s4))
      in load_presets 5 0 s5)"

text \<open>The band change of the menu: cases 0 to 4 of the \<open>switch\<close> in \<open>main\<close>.\<close>

definition band_change_menu :: "cint \<Rightarrow> radio \<Rightarrow> radio" where
  "band_change_menu m s =
     (let s1 = set_band m (s\<lparr>cur_band := m\<rparr>);
          f0 = load_frequency (eemem s1) (cur_vfo s1) m;
          s2 = (if is_mem_freq_ok f0 m \<noteq> 0 then set_f_vfo m (cur_vfo s1) f0 s1
                else set_f_vfo m (cur_vfo s1) (c_freq m) s1);
          s3 = program_dds (f_vfo s2 m (cur_vfo s2) + f_lo s2 (sideband s2)) s2
      in s3\<lparr>eemem := (eemem s3)(OFF_LAST_BAND_USED := ucast m)\<rparr>)"

text \<open>The fast QSY to the next band: \<open>key == 4\<close> in \<open>main\<close>.\<close>

definition band_change_qsy :: "radio \<Rightarrow> radio" where
  "band_change_qsy s =
     (let b = (if cur_band s <s 4 then cur_band s + 1 else 0);
          s1 = set_band b (s\<lparr>cur_band := b\<rparr>);
          f0 = load_frequency (eemem s1) (cur_vfo s1) b;
          s2 = set_f_vfo b (cur_vfo s1)
                 (if is_mem_freq_ok f0 b = 0 then c_freq b else f0) s1;
          s3 = program_dds (f_vfo s2 b (cur_vfo s2) + f_lo s2 (sideband s2)) s2
      in s3\<lparr>eemem := (eemem s3)(OFF_LAST_BAND_USED := ucast b)\<rparr>)"

text \<open>The sideband change of the menu (cases 20 and 21), the path that keeps both in step.\<close>

definition sideband_change :: "cint \<Rightarrow> radio \<Rightarrow> radio" where
  "sideband_change m s =
     (let s1 = s\<lparr>sideband := m - 20\<rparr>;
          s2 = program_dds (f_vfo s1 (cur_band s1) (cur_vfo s1) + f_lo s1 (sideband s1)) s1
      in set_lo (sideband s2) s2)"

section \<open>The scanner and its environment\<close>

text \<open>
  The scanner polls the keys (\<open>get_keys\<close>), the signal level (\<open>get_s_value\<close>), the two
  variables written by the encoder interrupt (\<open>tuningknob\<close>, \<open>tuningcount\<close>) and the tick
  counter of the timer interrupt (\<open>runseconds10\<close>). An observation holds what these reads
  return during one stretch of the program: one evaluation of a loop condition followed by
  the loop body, or one straight piece of code between two loops. Within a stretch every
  input is read at most once, except the tick counter in the dwell loop of
  \<open>scan_vfoa_vfob\<close>, whose second read is \<open>o_clock2\<close>. A run of the scanner consumes a list
  of observations, one for each stretch. Any list is a possible run of the environment.
\<close>

record obs =
  o_key :: cint
  o_sval :: cint
  o_knob :: cint
  o_count :: clong
  o_clock :: clong
  o_clock2 :: clong

text \<open>
  An observation with the tuning knob at rest: key \<open>k\<close>, signal level \<open>s\<close>, tick counter \<open>c\<close>.
\<close>

definition seen :: "cint \<Rightarrow> cint \<Rightarrow> clong \<Rightarrow> obs" where
  "seen k s c = \<lparr>o_key = k, o_sval = s, o_knob = 0, o_count = 0, o_clock = c, o_clock2 = c\<rparr>"

text \<open>The same observation with the knob turned: step accumulator \<open>k\<close>, rotation count \<open>n\<close>.\<close>

definition turned :: "cint \<Rightarrow> clong \<Rightarrow> obs \<Rightarrow> obs" where
  "turned k n ob = ob\<lparr>o_knob := k, o_count := n\<rparr>"

text \<open>
  What the scanner does to the outside, in order: \<open>Program f\<close> is a call of
  \<open>set_frequency_ad9850 (f)\<close>, \<open>Measure f s\<close> a call of \<open>get_s_value\<close> that returned \<open>s\<close> while
  the probe frequency variable was \<open>f\<close>, \<open>Clock c\<close> a read of \<open>runseconds10\<close> that returned \<open>c\<close>.
\<close>

datatype event = Program clong | Measure clong cint | Clock clong

text \<open>The result of \<open>tune_frequency\<close> on the interrupt variables of an observation.\<close>

definition tuned :: "clong \<Rightarrow> obs \<Rightarrow> clong" where
  "tuned f ob = fst (tune_frequency f \<lparr>laststate = 0, tuningknob = o_knob ob, tuningcount = o_count ob\<rparr>)"

text \<open>
  A loop or a piece of code either comes to its end with some observations left, or the
  observations run out and it is still under way.
\<close>

datatype 'v step = Starved 'v | Went 'v "obs list"

text \<open>
  A scan function returns a value, or is still under way when the observations run out, or
  is in a loop that reads no input and has no exit.
\<close>

datatype 'v outcome = Returned clong 'v | Pending 'v | Spins 'v

subsection \<open>\<open>scan_f0_f1\<close>\<close>

text \<open>The local variables of \<open>scan_f0_f1\<close> and the events so far.\<close>

record scan =
  fx :: clong
  key :: cint
  sval :: cint
  wait :: cint
  runsecs10thresh :: clong
  trace :: "event list"

text \<open>The block under \<open>//Manual tuning\<close>, which occurs three times in the loop body.\<close>

definition manual_tune :: "radio \<Rightarrow> obs \<Rightarrow> scan \<Rightarrow> scan" where
  "manual_tune r ob v =
     (let ftmp = tuned (fx v) ob
      in if ftmp \<noteq> 0
         then v\<lparr>fx := ftmp, trace := trace v @ [Program (ftmp + f_lo r (sideband r))]\<rparr>
         else v)"

text \<open>\<open>while(sval > thresh && !key)\<close>: the scanner stays on a signal.\<close>

fun stop_loop :: "radio \<Rightarrow> scan \<Rightarrow> obs list \<Rightarrow> scan step" where
  "stop_loop r v [] = (if thresh r <s sval v \<and> key v = 0 then Starved v else Went v [])"
| "stop_loop r v (ob # rest) =
     (if thresh r <s sval v \<and> key v = 0
      then stop_loop r
             (manual_tune r ob
                (v\<lparr>sval := o_sval ob, key := o_key ob, wait := 1,
                   trace := trace v @ [Measure (fx v) (o_sval ob)]\<rparr>))
             rest
      else Went v (ob # rest))"

text \<open>
  \<open>while(runsecs10thresh + 30 > runseconds10)\<close>: the dwell. Every evaluation of the
  condition reads the tick counter.
\<close>

fun wait_loop :: "radio \<Rightarrow> scan \<Rightarrow> obs list \<Rightarrow> scan step" where
  "wait_loop r v [] = Starved v"
| "wait_loop r v (ob # rest) =
     (if o_clock ob <s runsecs10thresh v + 30
      then wait_loop r
             (manual_tune r ob
                (v\<lparr>key := o_key ob,
                   runsecs10thresh := (if o_key ob \<noteq> 0 then 0 else runsecs10thresh v),
                   trace := trace v @ [Clock (o_clock ob)]\<rparr>))
             rest
      else Went (v\<lparr>trace := trace v @ [Clock (o_clock ob)]\<rparr>) rest)"

text \<open>The body of the \<open>for\<close> loop up to the key handler.\<close>

definition scan_body :: "radio \<Rightarrow> scan \<Rightarrow> obs list \<Rightarrow> scan step" where
  "scan_body r v obs =
     (case obs of
        [] \<Rightarrow> Starved v
      | o1 # obs1 \<Rightarrow>
          (case stop_loop r
                  (v\<lparr>key := o_key o1, sval := o_sval o1,
                     trace := trace v @ [Program (fx v + f_lo r (sideband r)),
                                         Measure (fx v) (o_sval o1)]\<rparr>)
                  obs1 of
             Starved v2 \<Rightarrow> Starved v2
           | Went v2 [] \<Rightarrow> Starved v2
           | Went v2 (o3 # obs3) \<Rightarrow>
               (case (if wait v2 \<noteq> 0
                      then wait_loop r
                             (v2\<lparr>runsecs10thresh := o_clock o3,
                                 trace := trace v2 @ [Clock (o_clock o3)]\<rparr>) obs3
                      else Went (v2\<lparr>runsecs10thresh := o_clock o3,
                                     trace := trace v2 @ [Clock (o_clock o3)]\<rparr>) obs3) of
                  Starved v4 \<Rightarrow> Starved v4
                | Went v4 [] \<Rightarrow> Starved v4
                | Went v4 (o5 # obs5) \<Rightarrow>
                    Went (manual_tune r o5 (if wait v4 \<noteq> 0 then v4\<lparr>wait := 0\<rparr> else v4)) obs5)))"

text \<open>
  \<open>while(key != 2) { for(fx = f[0]; fx < f[1]; fx += 100) { ... } }\<close> and the \<open>return 0\<close>
  after it, entered with \<open>fx\<close> at its current value. When the \<open>for\<close> loop is left with
  \<open>key != 2\<close> it starts again at \<open>f[0]\<close>; with \<open>f[0] >= f[1]\<close> its body never runs and
  nothing is read any more.
\<close>

function sweep :: "radio \<Rightarrow> clong \<Rightarrow> clong \<Rightarrow> scan \<Rightarrow> obs list \<Rightarrow> scan outcome" where
  "sweep r f0 f1 v obs =
     (if fx v <s f1
      then (case scan_body r v obs of
              Starved v' \<Rightarrow> Pending v'
            | Went v' obs' \<Rightarrow>
                if key v' = 2 then Returned (fx v') v'
                else if key v' = 3 then Returned 0 v'
                else sweep r f0 f1 (v'\<lparr>key := 0, fx := fx v' + 100\<rparr>) obs')
      else if key v = 2 then Returned 0 v
      else if f0 <s f1 then sweep r f0 f1 (v\<lparr>fx := f0\<rparr>) obs
      else Spins v)"
  by pat_completeness auto
termination
proof (relation "measures [\<lambda>(r, f0, f1, v, obs). length obs,
                            \<lambda>(r, f0, f1, v, obs). if fx v <s f1 then 0 else 1]")
  show "wf (measures [\<lambda>(r, f0, f1, v, obs). length obs,
                       \<lambda>(r, f0, f1, v, obs). if fx v <s f1 then 0 else (1::nat)])"
    by simp
next
  fix r :: radio and f0 f1 :: clong and v v' :: scan and obs obs' :: "obs list"
  assume b: "scan_body r v obs = Went v' obs'"
  have st: "stop_loop r u xs = Went u' ys \<Longrightarrow> length ys \<le> length xs" for u u' xs ys
    by (induction xs arbitrary: u) (fastforce split: if_splits intro: le_SucI)+
  have wt: "wait_loop r u xs = Went u' ys \<Longrightarrow> length ys < length xs" for u u' xs ys
    by (induction xs arbitrary: u) (fastforce split: if_splits)+
  have "length obs' < length obs"
    using b unfolding scan_body_def
    by (auto split: list.splits step.splits if_splits dest!: st wt)
  then show "((r, f0, f1, v'\<lparr>key := 0, fx := fx v' + 100\<rparr>, obs'), (r, f0, f1, v, obs))
        \<in> measures [\<lambda>(r, f0, f1, v, obs). length obs,
                       \<lambda>(r, f0, f1, v, obs). if fx v <s f1 then 0 else 1]"
    by simp
next
  fix r :: radio and f0 f1 :: clong and v :: scan and obs :: "obs list"
  assume "\<not> fx v <s f1" "f0 <s f1"
  then show "((r, f0, f1, v\<lparr>fx := f0\<rparr>, obs), (r, f0, f1, v, obs))
        \<in> measures [\<lambda>(r, f0, f1, v, obs). length obs,
                       \<lambda>(r, f0, f1, v, obs). if fx v <s f1 then 0 else 1]"
    by simp
qed

text \<open>
  \<open>scan_f0_f1\<close>: the two VFO frequencies of the band are put in order and the sweep starts
  at the lower one. \<open>wait\<close> is not initialised in the source; its first value is the
  parameter \<open>wait0\<close>.
\<close>

definition scan_f0_f1 :: "radio \<Rightarrow> cint \<Rightarrow> obs list \<Rightarrow> scan outcome" where
  "scan_f0_f1 r wait0 obs =
     (let fa = f_vfo r (cur_band r) 0;
          fb = f_vfo r (cur_band r) 1;
          f0 = (if fb <s fa then fb else fa);
          f1 = (if fb <s fa then fa else fb)
      in sweep r f0 f1
           \<lparr>fx = f0, key = 0, sval = 0, wait = wait0, runsecs10thresh = 0, trace = []\<rparr> obs)"

subsection \<open>\<open>scan_vfoa_vfob\<close>\<close>

text \<open>
  \<open>scan_vfoa_vfob\<close> tunes the two VFO frequencies of the band in place, so its variables
  include the radio state. \<open>vfo_f v\<close> is \<open>f_vfo[cur_band][t1]\<close>.
\<close>

record vscan =
  vr :: radio
  t1 :: cint
  vkey :: cint
  vsval :: cint
  vthresh :: clong
  vtrace :: "event list"

definition vfo_f :: "vscan \<Rightarrow> clong" where
  "vfo_f v = f_vfo (vr v) (cur_band (vr v)) (t1 v)"

text \<open>
  The block under \<open>//Manual tuning\<close>; in the two loops it also restarts the dwell with the
  tick counter given as \<open>Some\<close> value.
\<close>

definition vmanual_tune :: "obs \<Rightarrow> clong option \<Rightarrow> vscan \<Rightarrow> vscan" where
  "vmanual_tune ob restart v =
     (let ftmp = tuned (vfo_f v) ob
      in if ftmp \<noteq> 0
         then v\<lparr>vr := set_f_vfo (cur_band (vr v)) (t1 v) ftmp (vr v),
                 vtrace := vtrace v @ Program (ftmp + f_lo (vr v) (sideband (vr v))) #
                             (case restart of None \<Rightarrow> [] | Some c \<Rightarrow> [Clock c]),
                 vthresh := (case restart of None \<Rightarrow> vthresh v | Some c \<Rightarrow> c)\<rparr>
         else v)"

fun vstop_loop :: "vscan \<Rightarrow> obs list \<Rightarrow> vscan step" where
  "vstop_loop v [] =
     (if thresh (vr v) <s vsval v \<and> vkey v = 0 then Starved v else Went v [])"
| "vstop_loop v (ob # rest) =
     (if thresh (vr v) <s vsval v \<and> vkey v = 0
      then vstop_loop
             (vmanual_tune ob (Some (o_clock ob))
                (v\<lparr>vsval := o_sval ob, vkey := o_key ob,
                   vtrace := vtrace v @ [Measure (vfo_f v) (o_sval ob)]\<rparr>))
             rest
      else Went v (ob # rest))"

fun vwait_loop :: "vscan \<Rightarrow> obs list \<Rightarrow> vscan step" where
  "vwait_loop v [] = Starved v"
| "vwait_loop v (ob # rest) =
     (if o_clock ob <s vthresh v + 30
      then vwait_loop
             (vmanual_tune ob (Some (o_clock2 ob))
                (v\<lparr>vkey := o_key ob,
                   vthresh := (if o_key ob \<noteq> 0 then 0 else vthresh v),
                   vtrace := vtrace v @ [Clock (o_clock ob)]\<rparr>))
             rest
      else Went (v\<lparr>vtrace := vtrace v @ [Clock (o_clock ob)]\<rparr>) rest)"

text \<open>The body of the \<open>for\<close> loop up to the key handler; the dwell is always entered.\<close>

definition vscan_body :: "vscan \<Rightarrow> obs list \<Rightarrow> vscan step" where
  "vscan_body v obs =
     (case obs of
        [] \<Rightarrow> Starved v
      | o1 # obs1 \<Rightarrow>
          (case vstop_loop
                  (v\<lparr>vkey := o_key o1, vsval := o_sval o1,
                     vtrace := vtrace v @ [Program (vfo_f v + f_lo (vr v) (sideband (vr v))),
                                           Measure (vfo_f v) (o_sval o1)]\<rparr>)
                  obs1 of
             Starved v2 \<Rightarrow> Starved v2
           | Went v2 [] \<Rightarrow> Starved v2
           | Went v2 (o3 # obs3) \<Rightarrow>
               (case vwait_loop (v2\<lparr>vthresh := o_clock o3,
                                    vtrace := vtrace v2 @ [Clock (o_clock o3)]\<rparr>) obs3 of
                  Starved v4 \<Rightarrow> Starved v4
                | Went v4 [] \<Rightarrow> Starved v4
                | Went v4 (o5 # obs5) \<Rightarrow> Went (vmanual_tune o5 None v4) obs5)))"

text \<open>
  \<open>while(key != 2) { for(t1 = 0; t1 < 2; t1++) { ... } }\<close> and the \<open>return 0\<close> after it.
  The accept key returns \<open>((long)t1 << 28) + f_vfo[cur_band][t1]\<close>.
\<close>

function valternate :: "vscan \<Rightarrow> obs list \<Rightarrow> vscan outcome" where
  "valternate v obs =
     (if t1 v <s 2
      then (case vscan_body v obs of
              Starved v' \<Rightarrow> Pending v'
            | Went v' obs' \<Rightarrow>
                if vkey v' = 2 then Returned (push_bit 28 (scast (t1 v')) + vfo_f v') v'
                else if vkey v' = 3 then Returned 0 v'
                else valternate (v'\<lparr>vkey := 0, t1 := t1 v' + 1\<rparr>) obs')
      else if vkey v = 2 then Returned 0 v
      else valternate (v\<lparr>t1 := 0\<rparr>) obs)"
  by pat_completeness auto
termination
proof (relation "measures [\<lambda>(v, obs). length obs, \<lambda>(v, obs). if t1 v <s 2 then 0 else 1]")
  show "wf (measures [\<lambda>(v, obs). length obs, \<lambda>(v, obs). if t1 v <s 2 then 0 else (1::nat)])"
    by simp
next
  fix v v' :: vscan and obs obs' :: "obs list"
  assume b: "vscan_body v obs = Went v' obs'"
  have st: "vstop_loop u xs = Went u' ys \<Longrightarrow> length ys \<le> length xs" for u u' xs ys
    by (induction xs arbitrary: u) (fastforce split: if_splits intro: le_SucI)+
  have wt: "vwait_loop u xs = Went u' ys \<Longrightarrow> length ys < length xs" for u u' xs ys
    by (induction xs arbitrary: u) (fastforce split: if_splits)+
  have "length obs' < length obs"
    using b unfolding vscan_body_def
    by (auto split: list.splits step.splits if_splits dest!: st wt)
  then show "((v'\<lparr>vkey := 0, t1 := t1 v' + 1\<rparr>, obs'), (v, obs))
        \<in> measures [\<lambda>(v, obs). length obs, \<lambda>(v, obs). if t1 v <s 2 then 0 else 1]"
    by simp
next
  fix v :: vscan and obs :: "obs list"
  assume "\<not> t1 v <s 2"
  then show "((v\<lparr>t1 := 0\<rparr>, obs), (v, obs))
        \<in> measures [\<lambda>(v, obs). length obs, \<lambda>(v, obs). if t1 v <s 2 then 0 else 1]"
    by (simp add: word_sless_alt)
qed

definition scan_vfoa_vfob :: "radio \<Rightarrow> obs list \<Rightarrow> vscan outcome" where
  "scan_vfoa_vfob r obs =
     valternate \<lparr>vr = r, t1 = 0, vkey = 0, vsval = 0, vthresh = 0, vtrace = []\<rparr> obs"

text \<open>
  What \<open>main\<close> does with the value of \<open>scan_vfoa_vfob\<close> (case 31): the VFO index is
  \<open>ftmp >> 28\<close> cut to an \<open>int\<close>, the frequency is \<open>ftmp & 0xFFFFFFF\<close>.
\<close>

definition vfo_scan_result :: "clong \<Rightarrow> radio \<Rightarrow> radio" where
  "vfo_scan_result ftmp s =
     (if ftmp AND 0xFFFFFFF \<noteq> 0
      then (let s1 = s\<lparr>cur_vfo := ucast (signed_drop_bit 28 ftmp)\<rparr>;
                s2 = set_f_vfo (cur_band s1) (cur_vfo s1) (ftmp AND 0xFFFFFFF) s1
            in program_dds (f_vfo s2 (cur_band s2) (cur_vfo s2) + f_lo s2 (sideband s2)) s2)
      else s)"

text \<open>What \<open>main\<close> does with the value of \<open>scan_f0_f1\<close> (case 30).\<close>

definition f0_f1_scan_result :: "clong \<Rightarrow> radio \<Rightarrow> radio" where
  "f0_f1_scan_result ftmp s =
     (if is_mem_freq_ok ftmp (cur_band s) \<noteq> 0
      then (let s1 = set_f_vfo (cur_band s) (cur_vfo s) ftmp s
            in program_dds (f_vfo s1 (cur_band s1) (cur_vfo s1) + f_lo s1 (sideband s1)) s1)
      else s)"

text \<open>The value a scan returned, if it did, and its variables where the run ended.\<close>

fun result_of :: "'v outcome \<Rightarrow> clong option" where
  "result_of (Returned x v) = Some x"
| "result_of (Pending v) = None"
| "result_of (Spins v) = None"

fun vars_of :: "'v outcome \<Rightarrow> 'v" where
  "vars_of (Returned x v) = v"
| "vars_of (Pending v) = v"
| "vars_of (Spins v) = v"

subsection \<open>Reading a trace\<close>

fun state_of :: "'v step \<Rightarrow> 'v" where
  "state_of (Starved v) = v"
| "state_of (Went v rest) = v"

text \<open>The tick counter values read, the signal levels measured, the frequencies programmed.\<close>

fun clock_reads :: "event list \<Rightarrow> clong list" where
  "clock_reads [] = []"
| "clock_reads (Clock c # es) = c # clock_reads es"
| "clock_reads (Program f # es) = clock_reads es"
| "clock_reads (Measure f s # es) = clock_reads es"

fun levels :: "event list \<Rightarrow> cint list" where
  "levels [] = []"
| "levels (Measure f s # es) = s # levels es"
| "levels (Program f # es) = levels es"
| "levels (Clock c # es) = levels es"

fun programs :: "event list \<Rightarrow> clong list" where
  "programs [] = []"
| "programs (Program f # es) = f # programs es"
| "programs (Measure f s # es) = programs es"
| "programs (Clock c # es) = programs es"

fun is_reading :: "event \<Rightarrow> bool" where
  "is_reading (Measure f s) = True"
| "is_reading (Program f) = False"
| "is_reading (Clock c) = False"

text \<open>The events after the last measurement of the signal level.\<close>

definition after_measure :: "event list \<Rightarrow> event list" where
  "after_measure es = rev (takeWhile (\<lambda>e. \<not> is_reading e) (rev es))"

text \<open>
  The frequency the DDS is on after a trace, and whether it was on the probe frequency plus
  the LO offset \<open>lo\<close> at every measurement of the trace.
\<close>

fun dds_after :: "clong option \<Rightarrow> event list \<Rightarrow> clong option" where
  "dds_after d [] = d"
| "dds_after d (Program f # es) = dds_after (Some f) es"
| "dds_after d (Measure f s # es) = dds_after d es"
| "dds_after d (Clock c # es) = dds_after d es"

fun on_frequency :: "clong \<Rightarrow> clong option \<Rightarrow> event list \<Rightarrow> bool" where
  "on_frequency lo d [] = True"
| "on_frequency lo d (Program f # es) = on_frequency lo (Some f) es"
| "on_frequency lo d (Measure f s # es) = (d = Some (f + lo) \<and> on_frequency lo d es)"
| "on_frequency lo d (Clock c # es) = on_frequency lo d es"

text \<open>Whether a loop or a piece of code came to its end, and whether a scan is under way.\<close>

fun went :: "'v step \<Rightarrow> bool" where
  "went (Went v rest) = True"
| "went (Starved v) = False"

fun pending :: "'v outcome \<Rightarrow> bool" where
  "pending (Pending v) = True"
| "pending (Returned x v) = False"
| "pending (Spins v) = False"

subsection \<open>States to run the scanner from\<close>

text \<open>
  The radio after a start from a blank EEPROM: 20 m, VFO A on 14.18 MHz, VFO B on 14.28 MHz,
  upper sideband with the LO on 9.0018 MHz, threshold 8. \<open>sweep_start\<close> and \<open>alt_start\<close> are
  the variables of the two scans at their first round on this radio; \<open>sweep_hold\<close> and
  \<open>alt_hold\<close> are the variables inside a stop, with the last level at 20 and the dwell
  reference at tick 100.
\<close>

definition radio20 :: radio where
  "radio20 = startup (power_on blank_eeprom)"

definition sweep_start :: scan where
  "sweep_start = \<lparr>fx = 14180000, key = 0, sval = 0, wait = 0, runsecs10thresh = 0, trace = []\<rparr>"

definition sweep_hold :: scan where
  "sweep_hold = \<lparr>fx = 14180000, key = 0, sval = 20, wait = 1, runsecs10thresh = 100, trace = []\<rparr>"

definition alt_start :: vscan where
  "alt_start = \<lparr>vr = radio20, t1 = 0, vkey = 0, vsval = 0, vthresh = 0, vtrace = []\<rparr>"

definition alt_hold :: vscan where
  "alt_hold = \<lparr>vr = radio20, t1 = 0, vkey = 0, vsval = 20, vthresh = 100, vtrace = []\<rparr>"

text \<open>The two outer loops are unfolded one round at a time, by hand.\<close>

declare sweep.simps [simp del] valternate.simps [simp del]

section \<open>Arithmetic of the machine integers\<close>

lemma word4_cases:
  assumes "(p::cint) < 4"
  shows "p = 0 \<or> p = 1 \<or> p = 2 \<or> p = 3"
proof -
  have "unat p < 4" using assms by (simp add: word_less_nat_alt)
  then have "unat p = 0 \<or> unat p = 1 \<or> unat p = 2 \<or> unat p = 3" by arith
  then show ?thesis by (simp add: word_unat_eq_iff)
qed

lemma and3_cases: "(x::byte) AND 3 = 0 \<or> x AND 3 = 1 \<or> x AND 3 = 2 \<or> x AND 3 = 3"
proof -
  have "x AND 3 \<le> 3" by (rule word_and_le1)
  then have "unat (x AND 3) \<le> 3" by (simp add: word_le_nat_alt)
  then have "unat (x AND 3) = 0 \<or> unat (x AND 3) = 1 \<or> unat (x AND 3) = 2 \<or> unat (x AND 3) = 3"
    by arith
  then show ?thesis by (simp add: word_unat_eq_iff)
qed

lemma encoder_state_cases:
  "encoder_state pinb = 0 \<or> encoder_state pinb = 1 \<or> encoder_state pinb = 2 \<or> encoder_state pinb = 3"
  using and3_cases [of pinb] by (auto simp: encoder_state_def)

lemma trunc_small:
  assumes "(x::clong) < 32768"
  shows "scast (ucast x :: cint) = x"
proof -
  have u: "uint x < 32768" using assms by (simp add: word_less_def)
  have "sint (ucast x :: cint) = uint x" using u
    by (simp add: signed_ucast_eq signed_take_bit_eq_take_bit_shift take_bit_int_eq_self)
  then show ?thesis by (simp add: scast_eq)
qed

lemma sint_eq_uint_small:
  assumes "uint (w::clong) < 2147483648"
  shows "sint w = uint w"
  using assms by (simp add: sint_uint signed_take_bit_eq_take_bit_shift take_bit_int_eq_self)

lemma uint_eq_sint_nonneg:
  assumes "0 \<le> sint (w::clong)"
  shows "uint w = sint w"
proof -
  have "sint w < 2 ^ 31" using sint_lt [of w] by simp
  then have "sint w < 2 ^ 32" by simp
  with assms show ?thesis by (simp add: uint_sint take_bit_int_eq_self)
qed

lemma uint_half:
  assumes "uint (c::clong) < 2147483648"
  shows "uint (signed_drop_bit 1 c) = uint c div 2"
proof -
  have s: "sint c = uint c" using assms by (rule sint_eq_uint_small)
  have "sint (signed_drop_bit 1 c) = uint c div 2"
    by (simp add: sint_signed_drop_bit_eq drop_bit_eq_div s)
  moreover have "0 \<le> uint c div 2" by simp
  ultimately show ?thesis using uint_eq_sint_nonneg [of "signed_drop_bit 1 c"] by simp
qed

lemma uint_count_product:
  assumes "(c::clong) \<le> 255"
  shows "uint (c * signed_drop_bit 1 c) = uint c * (uint c div 2)"
    and "c * signed_drop_bit 1 c < 32768"
proof -
  have u: "uint c \<le> 255" using assms by (simp add: word_le_def)
  have h: "uint (signed_drop_bit 1 c) = uint c div 2" using u by (intro uint_half) simp
  then have h': "uint (signed_drop_bit (Suc 0) c) = uint c div 2" by simp
  have "uint c * (uint c div 2) \<le> 255 * 127"
    using u by (intro mult_mono) auto
  then have b: "uint c * (uint c div 2) < 32768" by simp
  then show e: "uint (c * signed_drop_bit 1 c) = uint c * (uint c div 2)"
    by (simp add: uint_word_ariths h')
  show "c * signed_drop_bit 1 c < 32768"
    using b e by (simp add: word_less_def)
qed

section \<open>The encoder interrupt\<close>

lemma ISR_PCINT0_same:
  "encoder_state pinb = laststate ts \<Longrightarrow> ISR_PCINT0 pinb ts = ts"
  by (simp add: ISR_PCINT0_def)

lemma ISR_PCINT0_changed:
  "encoder_state pinb \<noteq> laststate ts \<Longrightarrow>
   ISR_PCINT0 pinb ts =
     ts\<lparr>tuningknob := tuningknob ts + knob_step (laststate ts) (encoder_state pinb),
        laststate := encoder_state pinb, tuningcount := tuningcount ts + 1\<rparr>"
  by (simp add: ISR_PCINT0_def Let_def)

lemma knob_step_table:
  assumes "p < 4" "c < 4"
  shows "(c = (p + 1) AND 3 \<longrightarrow> knob_step p c = 1) \<and>
         (c = (p - 1) AND 3 \<longrightarrow> knob_step p c = - 1) \<and>
         (c = (p + 2) AND 3 \<longrightarrow> knob_step p c = 0) \<and>
         (c \<noteq> p \<longrightarrow> c = (p + 1) AND 3 \<or> c = (p - 1) AND 3 \<or> c = (p + 2) AND 3)"
  using word4_cases [OF assms(1)] word4_cases [OF assms(2)]
  by (elim disjE; simp add: knob_step_def)

lemma encoder_state_less: "encoder_state pinb < 4"
  using encoder_state_cases [of pinb] by auto

lemma encoder_run_cw:
  "laststate ts < 4 \<Longrightarrow> steps_cw (laststate ts) ps \<Longrightarrow>
   tuningknob (encoder_run ps ts) = tuningknob ts + of_nat (length ps)"
proof (induction ps arbitrary: ts)
  case Nil
  then show ?case by simp
next
  case (Cons x xs)
  let ?c = "encoder_state x"
  let ?ts = "ISR_PCINT0 x ts"
  have c: "?c = (laststate ts + 1) AND 3" and rest: "steps_cw ?c xs"
    using Cons.prems(2) [unfolded steps_cw.simps] by blast+
  have ne: "?c \<noteq> laststate ts"
    using word4_cases [OF Cons.prems(1)] c by (elim disjE; simp)
  have st: "knob_step (laststate ts) ?c = 1"
    using knob_step_table [OF Cons.prems(1) encoder_state_less [of x]] c by blast
  have l: "laststate ?ts = ?c" and k: "tuningknob ?ts = tuningknob ts + 1"
    by (simp_all add: ISR_PCINT0_changed [OF ne] st)
  have "laststate ?ts < 4" by (simp only: l encoder_state_less)
  moreover have "steps_cw (laststate ?ts) xs" using rest by (simp only: l)
  ultimately have "tuningknob (encoder_run xs ?ts) = tuningknob ?ts + of_nat (length xs)"
    by (rule Cons.IH)
  then show ?case by (simp add: k)
qed

lemma encoder_run_ccw:
  "laststate ts < 4 \<Longrightarrow> steps_ccw (laststate ts) ps \<Longrightarrow>
   tuningknob (encoder_run ps ts) = tuningknob ts - of_nat (length ps)"
proof (induction ps arbitrary: ts)
  case Nil
  then show ?case by simp
next
  case (Cons x xs)
  let ?c = "encoder_state x"
  let ?ts = "ISR_PCINT0 x ts"
  have c: "?c = (laststate ts - 1) AND 3" and rest: "steps_ccw ?c xs"
    using Cons.prems(2) [unfolded steps_ccw.simps] by blast+
  have ne: "?c \<noteq> laststate ts"
    using word4_cases [OF Cons.prems(1)] c by (elim disjE; simp)
  have st: "knob_step (laststate ts) ?c = - 1"
    using knob_step_table [OF Cons.prems(1) encoder_state_less [of x]] c by blast
  have l: "laststate ?ts = ?c" and k: "tuningknob ?ts = tuningknob ts - 1"
    by (simp_all add: ISR_PCINT0_changed [OF ne] st)
  have "laststate ?ts < 4" by (simp only: l encoder_state_less)
  moreover have "steps_ccw (laststate ?ts) xs" using rest by (simp only: l)
  ultimately have "tuningknob (encoder_run xs ?ts) = tuningknob ?ts - of_nat (length xs)"
    by (rule Cons.IH)
  then show ?case by (simp add: k)
qed

lemma sint_add_of_nat:
  assumes "sint (k::cint) + int n \<le> 32767"
  shows "sint (k + of_nat n) = sint k + int n"
proof -
  have lo: "- 32768 \<le> sint k" using sint_ge [of k] by simp
  have "k + of_nat n = word_of_int (sint k + int n)" by simp
  then have "sint (k + of_nat n) = signed_take_bit 15 (sint k + int n)"
    by (simp only: sint_sbintrunc') simp
  also have "\<dots> = sint k + int n"
    using lo assms by (intro signed_take_bit_int_eq_self) simp_all
  finally show ?thesis .
qed

lemma sint_diff_of_nat:
  assumes "- 32768 \<le> sint (k::cint) - int n"
  shows "sint (k - of_nat n) = sint k - int n"
proof -
  have hi: "sint k < 32768" using sint_lt [of k] by simp
  have "k - of_nat n = word_of_int (sint k - int n)" by simp
  then have "sint (k - of_nat n) = signed_take_bit 15 (sint k - int n)"
    by (simp only: sint_sbintrunc') simp
  also have "\<dots> = sint k - int n"
    using hi assms by (intro signed_take_bit_int_eq_self) simp_all
  finally show ?thesis .
qed

lemma encoder_state_onto: "c < 4 \<Longrightarrow> \<exists>pinb. encoder_state pinb = c"
proof -
  assume "c < 4"
  then have "c = 0 \<or> c = 1 \<or> c = 2 \<or> c = 3" by (rule word4_cases)
  moreover have "encoder_state 0 = 0" "encoder_state 1 = 1" "encoder_state 3 = 2" "encoder_state 2 = 3"
    by (simp_all add: encoder_state_def)
  ultimately show ?thesis by blast
qed

text \<open>
  Claim C3. For every pair of a previous phase \<open>laststate\<close> and a current phase read from the
  encoder pins, the interrupt handler adds \<open>((laststate - state) & 0x03) - 2\<close> to
  \<open>tuningknob\<close> when the phases differ and changes nothing when they are equal. The step is
  \<open>+1\<close> when the current phase is the next one, \<open>-1\<close> when it is the previous one and \<open>0\<close>
  when it is the opposite one; these three cases cover every unequal pair, and every 2-bit
  phase is read from some pin value. A run of samples that always moves to the next phase
  adds its length to \<open>tuningknob\<close>, a run that always moves to the previous phase subtracts
  it; read as signed numbers the accumulator grows or falls by exactly the number of steps as
  long as the result fits the 16-bit \<open>int\<close>.
\<close>

theorem encoder_decode:
  assumes "laststate ts < 4"
  shows "encoder_state pinb < 4 \<and>
    (encoder_state pinb = laststate ts \<longrightarrow> ISR_PCINT0 pinb ts = ts) \<and>
    (encoder_state pinb \<noteq> laststate ts \<longrightarrow>
       tuningknob (ISR_PCINT0 pinb ts) =
         tuningknob ts + (((laststate ts - encoder_state pinb) AND 0x03) - 2) \<and>
       laststate (ISR_PCINT0 pinb ts) = encoder_state pinb) \<and>
    (encoder_state pinb = (laststate ts + 1) AND 3 \<longrightarrow>
       tuningknob (ISR_PCINT0 pinb ts) = tuningknob ts + 1) \<and>
    (encoder_state pinb = (laststate ts - 1) AND 3 \<longrightarrow>
       tuningknob (ISR_PCINT0 pinb ts) = tuningknob ts - 1) \<and>
    (encoder_state pinb = (laststate ts + 2) AND 3 \<longrightarrow>
       tuningknob (ISR_PCINT0 pinb ts) = tuningknob ts) \<and>
    (encoder_state pinb \<noteq> laststate ts \<longrightarrow>
       encoder_state pinb = (laststate ts + 1) AND 3 \<or>
       encoder_state pinb = (laststate ts - 1) AND 3 \<or>
       encoder_state pinb = (laststate ts + 2) AND 3) \<and>
    (\<forall>c. c < 4 \<longrightarrow> (\<exists>x. encoder_state x = c)) \<and>
    (\<forall>ps. steps_cw (laststate ts) ps \<longrightarrow>
       tuningknob (encoder_run ps ts) = tuningknob ts + of_nat (length ps) \<and>
       (sint (tuningknob ts) + int (length ps) \<le> 32767 \<longrightarrow>
        sint (tuningknob (encoder_run ps ts)) = sint (tuningknob ts) + int (length ps))) \<and>
    (\<forall>ps. steps_ccw (laststate ts) ps \<longrightarrow>
       tuningknob (encoder_run ps ts) = tuningknob ts - of_nat (length ps) \<and>
       (- 32768 \<le> sint (tuningknob ts) - int (length ps) \<longrightarrow>
        sint (tuningknob (encoder_run ps ts)) = sint (tuningknob ts) - int (length ps)))"
proof -
  let ?p = "laststate ts" and ?c = "encoder_state pinb"
  have c4: "?c < 4" by (rule encoder_state_less)
  note tab = knob_step_table [OF assms c4]
  have ne1: "?c = (?p + 1) AND 3 \<Longrightarrow> ?c \<noteq> ?p"
    and ne2: "?c = (?p - 1) AND 3 \<Longrightarrow> ?c \<noteq> ?p"
    and ne3: "?c = (?p + 2) AND 3 \<Longrightarrow> ?c \<noteq> ?p"
    using word4_cases [OF assms] by (elim disjE; simp)+
  have a: "?c = ?p \<longrightarrow> ISR_PCINT0 pinb ts = ts"
    by (simp add: ISR_PCINT0_same)
  have b: "?c \<noteq> ?p \<longrightarrow>
       tuningknob (ISR_PCINT0 pinb ts) = tuningknob ts + (((?p - ?c) AND 0x03) - 2) \<and>
       laststate (ISR_PCINT0 pinb ts) = ?c"
    by (simp add: ISR_PCINT0_changed knob_step_def)
  have s1: "?c = (?p + 1) AND 3 \<longrightarrow> tuningknob (ISR_PCINT0 pinb ts) = tuningknob ts + 1"
    using tab ne1 by (auto simp: ISR_PCINT0_changed)
  have s2: "?c = (?p - 1) AND 3 \<longrightarrow> tuningknob (ISR_PCINT0 pinb ts) = tuningknob ts - 1"
    using tab ne2 by (auto simp: ISR_PCINT0_changed)
  have s3: "?c = (?p + 2) AND 3 \<longrightarrow> tuningknob (ISR_PCINT0 pinb ts) = tuningknob ts"
    using tab ne3 by (auto simp: ISR_PCINT0_changed)
  have cov: "?c \<noteq> ?p \<longrightarrow> ?c = (?p + 1) AND 3 \<or> ?c = (?p - 1) AND 3 \<or> ?c = (?p + 2) AND 3"
    using tab by blast
  have onto: "\<forall>c. c < 4 \<longrightarrow> (\<exists>x. encoder_state x = c)"
    using encoder_state_onto by blast
  have cw: "\<forall>ps. steps_cw ?p ps \<longrightarrow>
       tuningknob (encoder_run ps ts) = tuningknob ts + of_nat (length ps) \<and>
       (sint (tuningknob ts) + int (length ps) \<le> 32767 \<longrightarrow>
        sint (tuningknob (encoder_run ps ts)) = sint (tuningknob ts) + int (length ps))"
    using encoder_run_cw [OF assms] sint_add_of_nat by simp
  have ccw: "\<forall>ps. steps_ccw ?p ps \<longrightarrow>
       tuningknob (encoder_run ps ts) = tuningknob ts - of_nat (length ps) \<and>
       (- 32768 \<le> sint (tuningknob ts) - int (length ps) \<longrightarrow>
        sint (tuningknob (encoder_run ps ts)) = sint (tuningknob ts) - int (length ps))"
    using encoder_run_ccw [OF assms] sint_diff_of_nat by simp
  show ?thesis
    using c4 a b s1 s2 s3 cov onto cw ccw by blast
qed


theorem encoder_decode_witness:
  "laststate \<lparr>laststate = 0, tuningknob = 0, tuningcount = 0\<rparr> < 4 \<and>
   encoder_state 1 = (laststate \<lparr>laststate = 0, tuningknob = 0, tuningcount = 0\<rparr> + 1) AND 3 \<and>
   steps_cw (laststate \<lparr>laststate = 0, tuningknob = 0, tuningcount = 0\<rparr>) [1, 3, 2] \<and>
   tuningknob (ISR_PCINT0 1 \<lparr>laststate = 0, tuningknob = 0, tuningcount = 0\<rparr>) = 1 \<and>
   sint (tuningknob (encoder_run [1, 3, 2] \<lparr>laststate = 0, tuningknob = 0, tuningcount = 0\<rparr>)) = 3"
proof -
  let ?ts = "\<lparr>laststate = 0, tuningknob = 0, tuningcount = 0\<rparr> :: tuning"
  have h: "laststate ?ts < 4" by simp
  have e: "encoder_state 1 = (laststate ?ts + 1) AND 3" by (simp add: encoder_state_def)
  have s: "steps_cw (laststate ?ts) [1, 3, 2]" by (simp add: encoder_state_def)
  have b: "sint (tuningknob ?ts) + int (length [1::byte, 3, 2]) \<le> 32767" by simp
  from encoder_decode [OF h, of 1] e
  have 1: "tuningknob (ISR_PCINT0 1 ?ts) = tuningknob ?ts + 1" by blast
  from encoder_decode [OF h, of 1] s b
  have 2: "sint (tuningknob (encoder_run [1, 3, 2] ?ts)) = sint (tuningknob ?ts) + int (length [1::byte, 3, 2])"
    by blast
  show ?thesis using h e s 1 2 by simp
qed

section \<open>The tuning step\<close>

text \<open>
  For rotation counts up to 255 the product \<open>tuningcount * (tuningcount >> 1)\<close> fits the
  \<open>int\<close> that \<open>calc_tuningfactor\<close> returns, and \<open>tune_frequency\<close> adds or subtracts the
  mathematical product.
\<close>

lemma tune_frequency_small_count:
  assumes "tuningcount ts \<le> 255"
  shows "tune_frequency f ts =
     (if 2 <s tuningknob ts
      then (f + tuningcount ts * signed_drop_bit 1 (tuningcount ts), ts\<lparr>tuningknob := 0\<rparr>)
      else if tuningknob ts <s - 2
      then (f - tuningcount ts * signed_drop_bit 1 (tuningcount ts), ts\<lparr>tuningknob := 0\<rparr>)
      else (0, ts)) \<and>
     uint (tuningcount ts * signed_drop_bit 1 (tuningcount ts)) =
       uint (tuningcount ts) * (uint (tuningcount ts) div 2)"
  using trunc_small [OF uint_count_product(2) [OF assms]] uint_count_product(1) [OF assms]
  by (simp add: tune_frequency_def calc_tuningfactor_def)

text \<open>
  Claim C4, where the code departs from it. \<open>calc_tuningfactor\<close> computes the product
  \<open>tuningcount * (tuningcount >> 1)\<close> as a \<open>long\<close> but is declared \<open>int\<close>, so only the low 16
  bits of the step come back. With the knob turned clockwise (\<open>tuningknob = 3\<close>) on
  14200000 Hz a count of 255 still gives the step \<open>255 * 127 = 32385\<close>; at a count of 256 the
  step \<open>32768\<close> reads back as \<open>-32768\<close> and the frequency returned is 14167232, not 14232768;
  at a count of 300 the step \<open>45000\<close> reads back as \<open>-20536\<close>, so the clockwise turn lowers
  the frequency to 14179464 and the counter-clockwise turn raises it to 14220536.
\<close>

theorem tune_frequency_reversed:
  "tune_frequency 14200000 \<lparr>laststate = 0, tuningknob = 3, tuningcount = 255\<rparr> =
     (14232385, \<lparr>laststate = 0, tuningknob = 0, tuningcount = 255\<rparr>) \<and>
   tune_frequency 14200000 \<lparr>laststate = 0, tuningknob = 3, tuningcount = 256\<rparr> =
     (14167232, \<lparr>laststate = 0, tuningknob = 0, tuningcount = 256\<rparr>) \<and>
   sint (calc_tuningfactor \<lparr>laststate = 0, tuningknob = 3, tuningcount = 300\<rparr>) = - 20536 \<and>
   tune_frequency 14200000 \<lparr>laststate = 0, tuningknob = 3, tuningcount = 300\<rparr> =
     (14179464, \<lparr>laststate = 0, tuningknob = 0, tuningcount = 300\<rparr>) \<and>
   tune_frequency 14200000 \<lparr>laststate = 0, tuningknob = - 3, tuningcount = 300\<rparr> =
     (14220536, \<lparr>laststate = 0, tuningknob = 0, tuningcount = 300\<rparr>)"
  by (simp add: tune_frequency_def calc_tuningfactor_def word_sless_alt)

section \<open>Frequencies in the EEPROM\<close>

lemma ucast_diff_down: "(ucast ((a::clong) - b) :: byte) = ucast a - ucast b"
proof -
  have "(ucast (word_of_int (uint a - uint b) :: clong) :: byte) = word_of_int (uint a - uint b)"
    by (rule ucast_down_wi) (simp add: is_down)
  moreover have "word_of_int (uint a - uint b) = a - b" by simp
  ultimately have "(ucast (a - b) :: byte) = word_of_int (uint a - uint b)" by simp
  also have "\<dots> = word_of_int (uint a) - word_of_int (uint b)" by (simp only: wi_hom_sub)
  also have "\<dots> = ucast a - ucast b" by (simp only: ucast_eq)
  finally show ?thesis .
qed

lemma widen_256: "(ucast ((256 :: cint) * ucast (b::byte)) :: clong) = push_bit 8 (ucast b)"
proof -
  have "(256 :: cint) * ucast b = push_bit 8 (ucast b)" by (simp add: push_bit_eq_mult)
  moreover have "(ucast (push_bit 8 (ucast b :: cint) :: cint) :: clong) = push_bit 8 (ucast b)"
    by (rule bit_word_eqI) (auto simp add: bit_simps dest: bit_imp_le_length)
  ultimately show ?thesis by simp
qed

lemma bytes_join:
  "push_bit 24 (ucast (ucast (drop_bit 24 f) :: byte)) + push_bit 16 (ucast (ucast (drop_bit 16 f) :: byte))
   + push_bit 8 (ucast (ucast (drop_bit 8 f) :: byte)) + ucast (ucast f :: byte) = (f :: clong)"
proof -
  have 1: "push_bit 8 (ucast (ucast (drop_bit 8 f) :: byte)) + ucast (ucast f :: byte) = take_bit 16 f"
  proof -
    have "push_bit 8 (ucast (ucast (drop_bit 8 f) :: byte) :: clong) = push_bit 8 (drop_bit 8 (take_bit 16 f))"
      by (rule bit_word_eqI) (auto simp add: bit_simps)
    moreover have "(ucast (ucast f :: byte) :: clong) = take_bit 8 (take_bit 16 f)"
      by (rule bit_word_eqI) (auto simp add: bit_simps)
    ultimately show ?thesis by (simp only: bits_ident)
  qed
  have 2: "push_bit 24 (ucast (ucast (drop_bit 24 f) :: byte)) + push_bit 16 (ucast (ucast (drop_bit 16 f) :: byte))
     = push_bit 16 (drop_bit 16 f)"
  proof -
    have "push_bit 24 (ucast (ucast (drop_bit 24 f) :: byte) :: clong) = push_bit 16 (push_bit 8 (drop_bit 8 (drop_bit 16 f)))"
      by (rule bit_word_eqI) (auto simp add: bit_simps)
    moreover have "push_bit 16 (ucast (ucast (drop_bit 16 f) :: byte) :: clong) = push_bit 16 (take_bit 8 (drop_bit 16 f))"
      by (rule bit_word_eqI) (auto simp add: bit_simps)
    ultimately show ?thesis by (simp only: push_bit_add [symmetric] bits_ident)
  qed
  have "push_bit 16 (drop_bit 16 f) + take_bit 16 f = f" by (rule bits_ident)
  then show ?thesis using 1 2 by (simp add: add.assoc)
qed


lemma low_byte_shifted: "(ucast (scast (push_bit 8 (x::cint)) :: clong) :: byte) = 0"
  by (rule bit_word_eqI) (auto simp add: bit_simps)

lemma byte3: "(ucast (signed_drop_bit 8 (signed_drop_bit 16 (f::clong))) :: byte) = ucast (drop_bit 24 f)"
  by (rule bit_word_eqI) (auto simp add: bit_simps)

lemma byte2: "(ucast (signed_drop_bit 16 (f::clong)) :: byte) = ucast (drop_bit 16 f)"
  by (rule bit_word_eqI) (auto simp add: bit_simps)

lemma lo16: "(f::clong) - push_bit 16 (signed_drop_bit 16 f) = take_bit 16 f"
proof -
  have "push_bit 16 (signed_drop_bit 16 f) = push_bit 16 (drop_bit 16 f)"
    by (rule bit_word_eqI) (auto simp add: bit_simps)
  moreover have "push_bit 16 (drop_bit 16 f) + take_bit 16 f = f"
    by (rule bits_ident)
  ultimately show ?thesis by (simp add: algebra_simps)
qed

lemma byte1: "(ucast (signed_drop_bit 8 (take_bit 16 (f::clong))) :: byte) = ucast (drop_bit 8 f)"
  by (rule bit_word_eqI) (auto simp add: bit_simps)

lemma byte0: "(ucast (take_bit 16 (f::clong)) :: byte) = ucast f"
  by (rule bit_word_eqI) (auto simp add: bit_simps)

lemma store_load_any:
  "load_frequency (store_frequency ee vfo band f) vfo band = f"
proof -
  let ?hi = "signed_drop_bit 16 f"
  have b3: "(ucast (signed_drop_bit 8 ?hi) :: byte) = ucast (drop_bit 24 f)" by (rule byte3)
  have b2: "(ucast (?hi - scast (push_bit 8 (ucast (ucast (drop_bit 24 f) :: byte) :: cint))) :: byte)
            = ucast (drop_bit 16 f)"
    by (simp only: ucast_diff_down low_byte_shifted byte2) simp
  have b3n: "(ucast (signed_drop_bit 24 f) :: byte) = ucast (drop_bit 24 f)"
    by (rule bit_word_eqI) (auto simp add: bit_simps)
  have b1: "(ucast (signed_drop_bit 8 (take_bit 16 f)) :: byte) = ucast (drop_bit 8 f)" by (rule byte1)
  have b0: "(ucast (take_bit 16 f - scast (push_bit 8 (ucast (ucast (drop_bit 8 f) :: byte) :: cint))) :: byte)
            = ucast f"
    by (simp only: ucast_diff_down low_byte_shifted byte0) simp
  have "load_frequency (store_frequency ee vfo band f) vfo band =
     16777216 * ucast (ucast (drop_bit 24 f) :: byte) + 65536 * ucast (ucast (drop_bit 16 f) :: byte)
         + ucast ((256 :: cint) * ucast (ucast (drop_bit 8 f) :: byte)) + ucast (ucast f :: byte)"
    by (simp add: load_frequency_def store_frequency_def Let_def lo16 b3 b3n b2 b1 b0) 
  also have "\<dots> = f"
    using bytes_join [of f] by (simp only: widen_256) (simp add: push_bit_eq_mult mult.commute)
  finally show ?thesis .
qed

lemma store_frequency_bytes:
  "store_frequency ee vfo band f (vfo * 4 + band * 8 + OFF_FREQ_DATA) = ucast (drop_bit 24 f) \<and>
   store_frequency ee vfo band f (vfo * 4 + band * 8 + OFF_FREQ_DATA + 1) = ucast (drop_bit 16 f) \<and>
   store_frequency ee vfo band f (vfo * 4 + band * 8 + OFF_FREQ_DATA + 2) = ucast (drop_bit 8 f) \<and>
   store_frequency ee vfo band f (vfo * 4 + band * 8 + OFF_FREQ_DATA + 3) = ucast f"
proof -
  let ?hi = "signed_drop_bit 16 f"
  have b3: "(ucast (signed_drop_bit 8 ?hi) :: byte) = ucast (drop_bit 24 f)" by (rule byte3)
  have b3n: "(ucast (signed_drop_bit 24 f) :: byte) = ucast (drop_bit 24 f)"
    by (rule bit_word_eqI) (auto simp add: bit_simps)
  have b2: "(ucast (?hi - scast (push_bit 8 (ucast (ucast (drop_bit 24 f) :: byte) :: cint))) :: byte)
            = ucast (drop_bit 16 f)"
    by (simp only: ucast_diff_down low_byte_shifted byte2) simp
  have b1: "(ucast (signed_drop_bit 8 (take_bit 16 f)) :: byte) = ucast (drop_bit 8 f)" by (rule byte1)
  have b0: "(ucast (take_bit 16 f - scast (push_bit 8 (ucast (ucast (drop_bit 8 f) :: byte) :: cint))) :: byte)
            = ucast f"
    by (simp only: ucast_diff_down low_byte_shifted byte0) simp
  show ?thesis
    by (simp add: store_frequency_def Let_def lo16 b3 b3n b2 b1 b0)
qed

text \<open>
  Claim C10. For every VFO index in \<open>{0, 1}\<close>, band index in \<open>[0, 4]\<close> and frequency \<open>f\<close> with
  \<open>0 \<le> f < 2^31\<close>, \<open>store_frequency (vfo, band, f)\<close> followed by \<open>load_frequency (vfo, band)\<close>
  returns exactly \<open>f\<close>; the four bytes written are the bytes of \<open>f\<close>, most significant first.
\<close>

theorem store_load_frequency:
  assumes "vfo = 0 \<or> vfo = 1" and "band \<le> 4" and "0 \<le> sint f"
  shows "load_frequency (store_frequency ee vfo band f) vfo band = f \<and>
         map (store_frequency ee vfo band f)
           [vfo * 4 + band * 8 + OFF_FREQ_DATA, vfo * 4 + band * 8 + OFF_FREQ_DATA + 1,
            vfo * 4 + band * 8 + OFF_FREQ_DATA + 2, vfo * 4 + band * 8 + OFF_FREQ_DATA + 3]
         = [ucast (drop_bit 24 f), ucast (drop_bit 16 f), ucast (drop_bit 8 f), ucast f]"
  using store_load_any [of ee vfo band f] store_frequency_bytes [of ee vfo band f]
  by simp

theorem store_load_frequency_witness:
  "((1::cint) = 0 \<or> (1::cint) = 1) \<and> (2::cint) \<le> 4 \<and> 0 \<le> sint (14200000 :: clong) \<and>
   load_frequency (store_frequency blank_eeprom 1 2 14200000) 1 2 = 14200000"
  using store_load_frequency [of 1 2 14200000 blank_eeprom]
  by simp

section \<open>Programming the AD9850\<close>

lemma clocked_bits_append:
  "clocked_bits p (xs @ ys) = clocked_bits p xs @ clocked_bits (last (p # xs)) ys"
  by (induction xs arbitrary: p) simp_all

lemma emits_refl: "\<not> bit (DDS_PORT s) DDS_W_CLK \<Longrightarrow> emits s [] s"
  by (simp add: emits_def)

lemma emits_trans:
  assumes "emits s bs s'" and "emits s' cs s''"
  shows "emits s (bs @ cs) s''"
proof -
  from assms(1) obtain ws where ws: "writes s' = writes s @ ws" "DDS_PORT s' = last (DDS_PORT s # ws)"
     "clocked_bits (DDS_PORT s) ws = bs" "\<forall>v \<in> set ws. bit v DDS_FQ_UD = bit (DDS_PORT s) DDS_FQ_UD"
    unfolding emits_def by blast
  from assms(2) obtain vs where vs: "writes s'' = writes s' @ vs" "DDS_PORT s'' = last (DDS_PORT s' # vs)"
     "clocked_bits (DDS_PORT s') vs = cs" "\<forall>v \<in> set vs. bit v DDS_FQ_UD = bit (DDS_PORT s') DDS_FQ_UD"
     "\<not> bit (DDS_PORT s'') DDS_W_CLK"
    unfolding emits_def by blast
  have fq: "bit (DDS_PORT s') DDS_FQ_UD = bit (DDS_PORT s) DDS_FQ_UD"
    using ws(2,4) by (cases ws rule: rev_cases) simp_all
  have 1: "writes s'' = writes s @ (ws @ vs)" using ws(1) vs(1) by simp
  have 2: "DDS_PORT s'' = last (DDS_PORT s # (ws @ vs))" using ws(2) vs(2) by (cases vs) simp_all
  have 3: "clocked_bits (DDS_PORT s) (ws @ vs) = bs @ cs"
    using ws(2,3) vs(3) by (simp only: clocked_bits_append)
  have 4: "\<forall>v \<in> set (ws @ vs). bit v DDS_FQ_UD = bit (DDS_PORT s) DDS_FQ_UD"
    using ws(4) vs(4) fq by auto
  show ?thesis unfolding emits_def using 1 2 3 4 vs(5) by blast
qed

lemma emits_spi_send_bit:
  assumes "\<not> bit (DDS_PORT s) DDS_W_CLK"
  shows "emits s [b \<noteq> 0] (spi_send_bit b s)"
  unfolding emits_def
  apply (rule exI [of _ "drop (length (writes s)) (writes (spi_send_bit b s))"])
  using assms
  apply (simp add: spi_send_bit_def port_set_def port_clear_def Let_def DDS_W_CLK_def DDS_SDATA_def DDS_FQ_UD_def bit_simps)
  done


lemma mask_bit_test:
  assumes "k < 16"
  shows "(ucast ((w::clong) AND push_bit k 1) :: cint) \<noteq> 0 \<longleftrightarrow> bit w k"
proof -
  have "(ucast (w AND push_bit k 1) :: cint) = (if bit w k then push_bit k 1 else 0)"
    using assms by (intro bit_word_eqI) (auto simp add: bit_simps)
  moreover have "(push_bit k 1 :: cint) \<noteq> 0"
    using assms by (simp add: push_bit_eq_mult)
  ultimately show ?thesis by simp
qed

lemma emits_send_word:
  "\<not> bit (DDS_PORT s) DDS_W_CLK \<Longrightarrow> k + n \<le> 16 \<Longrightarrow>
   emits s (map (\<lambda>i. bit w (k + i)) [0..<n]) (send_word n w (push_bit k 1) s)"
proof (induction n arbitrary: k s)
  case 0
  then show ?case by (simp add: emits_refl)
next
  case (Suc n)
  let ?s = "spi_send_bit (ucast (w AND push_bit k 1)) s"
  have k: "k < 16" using Suc.prems(2) by simp
  have 1: "emits s [bit w k] ?s"
    using emits_spi_send_bit [OF Suc.prems(1), of "ucast (w AND push_bit k 1)"]
    by (simp only: mask_bit_test [OF k])
  then have low: "\<not> bit (DDS_PORT ?s) DDS_W_CLK" by (auto simp: emits_def)
  have 2: "emits ?s (map (\<lambda>i. bit w (Suc k + i)) [0..<n]) (send_word n w (push_bit (Suc k) 1) ?s)"
    using Suc.prems(2) by (intro Suc.IH low) simp
  have "map (\<lambda>i. bit w (k + i)) [0..<Suc n] = [bit w k] @ map (\<lambda>i. bit w (Suc k + i)) [0..<n]"
    by (simp add: upt_rec [of 0 "Suc n"] map_Suc_upt [symmetric] del: upt_Suc)
  moreover have "push_bit 1 (push_bit k 1 :: clong) = push_bit (Suc k) 1"
    by (simp add: push_bit_eq_mult)
  then have "send_word (Suc n) w (push_bit k 1) s = send_word n w (push_bit (Suc k) 1) ?s"
    by (simp only: send_word.simps)
  ultimately show ?case using emits_trans [OF 1 2] by simp
qed

lemma emits_send_zeros:
  "\<not> bit (DDS_PORT s) DDS_W_CLK \<Longrightarrow> emits s (replicate n False) (send_zeros n s)"
proof (induction n arbitrary: s)
  case 0
  then show ?case by (simp add: emits_refl)
next
  case (Suc n)
  have 1: "emits s [False] (spi_send_bit 0 s)"
    using emits_spi_send_bit [OF Suc.prems, of 0] by simp
  then have low: "\<not> bit (DDS_PORT (spi_send_bit 0 s)) DDS_W_CLK" by (auto simp: emits_def)
  show ?case using emits_trans [OF 1 Suc.IH [OF low]] by simp
qed


lemma map_shift_upt: "map (\<lambda>i. f (i + k)) [0..<n] = map f [k..<k + n]"
  by (induction n) (simp_all add: add.commute)

lemma halves_bits:
  "map (\<lambda>i. bit (take_bit 16 (w::clong)) (0 + i)) [0..<16] @
   map (\<lambda>i. bit (signed_drop_bit 16 w) (0 + i)) [0..<16] = map (bit w) [0..<32]"
proof -
  have 1: "map (\<lambda>i. bit (take_bit 16 w) (0 + i)) [0..<16] = map (bit w) [0..<16]"
    by (rule map_cong) (auto simp add: bit_simps)
  have 2: "map (\<lambda>i. bit (signed_drop_bit 16 w) (0 + i)) [0..<16] = map (\<lambda>i. bit w (i + 16)) [0..<16]"
    by (rule map_cong) (auto simp add: bit_simps add.commute)
  have "map (\<lambda>i. bit w (i + 16)) [0..<16] = map (bit w) [16..<32]"
    using map_shift_upt [of "bit w" 16 16] by simp
  moreover have "map (bit w) [0..<32] = map (bit w) [0..<16] @ map (bit w) [16..<32]" 
    using upt_add_eq_append [of 0 16 16] by (simp only: map_append [symmetric]) simp
  ultimately show ?thesis using 1 2 by (simp only:)
qed

lemma emits_ad9850_words:
  assumes "\<not> bit (DDS_PORT s) DDS_W_CLK"
  shows "emits s (map (bit w) [0..<32] @ replicate 8 False)
           (send_zeros 8 (send_word 16 (signed_drop_bit 16 w) 1
              (send_word 16 (w - push_bit 16 (signed_drop_bit 16 w)) 1 s)))"
proof -
  let ?lo = "take_bit 16 w" and ?hi = "signed_drop_bit 16 w"
  let ?s2 = "send_word 16 ?lo 1 s"
  let ?s3 = "send_word 16 ?hi 1 ?s2"
  have 1: "emits s (map (\<lambda>i. bit ?lo (0 + i)) [0..<16]) ?s2"
    using emits_send_word [OF assms, of 0 16 ?lo] by simp
  then have l2: "\<not> bit (DDS_PORT ?s2) DDS_W_CLK" by (auto simp: emits_def)
  have 2: "emits ?s2 (map (\<lambda>i. bit ?hi (0 + i)) [0..<16]) ?s3"
    using emits_send_word [OF l2, of 0 16 ?hi] by simp
  then have l3: "\<not> bit (DDS_PORT ?s3) DDS_W_CLK" by (auto simp: emits_def)
  have 3: "emits ?s3 (replicate 8 False) (send_zeros 8 ?s3)"
    by (rule emits_send_zeros [OF l3])
  show ?thesis
    using emits_trans [OF emits_trans [OF 1 2] 3] by (simp only: halves_bits lo16)
qed

text \<open>
  Claim C9. With W_CLK low when \<open>set_frequency_ad9850\<close> starts, the AD9850 receives exactly
  40 bits: the 16 bits of \<open>loword\<close> (the low half of the tuning word) least significant
  first, then the 16 bits of \<open>hiword\<close> least significant first, then 8 zero bits. This is
  bit 0 to bit 31 of the tuning word followed by 8 zeros. The first write to the port lowers
  FQ_UD, FQ_UD stays low in every write up to the last, and the last write raises it.
\<close>

theorem ad9850_sequence:
  assumes "\<not> bit p DDS_W_CLK"
  shows "clocked_bits p (writes (set_frequency_ad9850 fword freq \<lparr>DDS_PORT = p, writes = []\<rparr>)) =
           map (bit (fword freq - push_bit 16 (signed_drop_bit 16 (fword freq)))) [0..<16] @
           map (bit (signed_drop_bit 16 (fword freq))) [0..<16] @ replicate 8 False \<and>
         clocked_bits p (writes (set_frequency_ad9850 fword freq \<lparr>DDS_PORT = p, writes = []\<rparr>)) =
           map (bit (fword freq)) [0..<32] @ replicate 8 False \<and>
         length (clocked_bits p (writes (set_frequency_ad9850 fword freq \<lparr>DDS_PORT = p, writes = []\<rparr>))) = 40 \<and>
         hd (writes (set_frequency_ad9850 fword freq \<lparr>DDS_PORT = p, writes = []\<rparr>)) =
           p AND NOT (push_bit DDS_FQ_UD 1) \<and>
         (\<forall>v \<in> set (butlast (writes (set_frequency_ad9850 fword freq \<lparr>DDS_PORT = p, writes = []\<rparr>))).
            \<not> bit v DDS_FQ_UD) \<and>
         bit (last (writes (set_frequency_ad9850 fword freq \<lparr>DDS_PORT = p, writes = []\<rparr>))) DDS_FQ_UD \<and>
         last (writes (set_frequency_ad9850 fword freq \<lparr>DDS_PORT = p, writes = []\<rparr>)) =
           DDS_PORT (set_frequency_ad9850 fword freq \<lparr>DDS_PORT = p, writes = []\<rparr>)"
proof -
  let ?w = "fword freq"
  let ?v1 = "p AND NOT (push_bit DDS_FQ_UD 1)"
  let ?s1 = "\<lparr>DDS_PORT = ?v1, writes = [?v1]\<rparr>"
  let ?s4 = "send_zeros 8 (send_word 16 (signed_drop_bit 16 ?w) 1
              (send_word 16 (?w - push_bit 16 (signed_drop_bit 16 ?w)) 1 ?s1))"
  let ?B = "map (bit ?w) [0..<32] @ replicate 8 False"
  let ?s' = "set_frequency_ad9850 fword freq \<lparr>DDS_PORT = p, writes = []\<rparr>"
  have v1: "\<not> bit ?v1 DDS_W_CLK" "\<not> bit ?v1 DDS_FQ_UD"
    using assms by (simp_all add: bit_simps DDS_W_CLK_def DDS_FQ_UD_def)
  have "emits ?s1 ?B ?s4"
    by (rule emits_ad9850_words) (simp only: ddsbus.simps v1 not_False_eq_True)
  then obtain ws where ws: "writes ?s4 = [?v1] @ ws" "DDS_PORT ?s4 = last (?v1 # ws)"
      "clocked_bits ?v1 ws = ?B" "\<forall>v \<in> set ws. \<not> bit v DDS_FQ_UD"
      "\<not> bit (DDS_PORT ?s4) DDS_W_CLK"
    unfolding emits_def using v1(2) by auto
  let ?v2 = "DDS_PORT ?s4 OR push_bit DDS_FQ_UD 1"
  have s': "?s' = ?s4\<lparr>DDS_PORT := ?v2, writes := writes ?s4 @ [?v2]\<rparr>"
    by (simp add: set_frequency_ad9850_def ad9850_send_def port_clear_def port_set_def Let_def)
  have wr: "writes ?s' = [?v1] @ ws @ [?v2]" and po: "DDS_PORT ?s' = ?v2"
    by (simp_all only: s' ws(1)) simp_all
  have v2: "\<not> bit ?v2 DDS_W_CLK" "bit ?v2 DDS_FQ_UD"
    using ws(5) by (simp_all add: bit_simps DDS_W_CLK_def DDS_FQ_UD_def)
  have cb: "clocked_bits p (writes ?s') = ?B"
    using v1(1) v2(1) ws(3) by (simp only: wr clocked_bits_append) simp
  have halves: "map (bit (?w - push_bit 16 (signed_drop_bit 16 ?w))) [0..<16] @
           map (bit (signed_drop_bit 16 ?w)) [0..<16] = map (bit ?w) [0..<32]"
    using halves_bits [of ?w] by (simp only: lo16) simp
  have 1: "clocked_bits p (writes ?s') =
           map (bit (?w - push_bit 16 (signed_drop_bit 16 ?w))) [0..<16] @
           map (bit (signed_drop_bit 16 ?w)) [0..<16] @ replicate 8 False"
    using cb halves by (simp only: append_assoc [symmetric])
  have 3: "length (clocked_bits p (writes ?s')) = 40" by (simp only: cb) simp
  have 4: "hd (writes ?s') = ?v1" by (simp only: wr) simp
  have 5: "\<forall>v \<in> set (butlast (writes ?s')). \<not> bit v DDS_FQ_UD"
    using ws(4) v1(2) by (simp only: wr) (simp add: butlast_append)
  have 6: "bit (last (writes ?s')) DDS_FQ_UD" using v2(2) by (simp only: wr) simp
  have 7: "last (writes ?s') = DDS_PORT ?s'" by (simp only: wr po) simp
  show ?thesis using 1 cb 3 4 5 6 7 by blast
qed

theorem ad9850_sequence_witness:
  "\<not> bit (3::byte) DDS_W_CLK \<and>
   clocked_bits 3 (writes (set_frequency_ad9850 (\<lambda>fx. 0x80010005) 14200000 \<lparr>DDS_PORT = 3, writes = []\<rparr>)) =
     [True, False, True, False, False, False, False, False,
      False, False, False, False, False, False, False, False,
      True, False, False, False, False, False, False, False,
      False, False, False, False, False, False, False, True,
      False, False, False, False, False, False, False, False]"
proof -
  have h: "\<not> bit (3::byte) DDS_W_CLK" by (simp add: DDS_W_CLK_def)
  have e: "map (bit (0x80010005 :: clong)) [0..<32] @ replicate 8 False =
     [True, False, True, False, False, False, False, False,
      False, False, False, False, False, False, False, False,
      True, False, False, False, False, False, False, False,
      False, False, False, False, False, False, False, True,
      False, False, False, False, False, False, False, False]"
    by code_simp
  have "clocked_bits 3 (writes (set_frequency_ad9850 (\<lambda>fx. 0x80010005) 14200000 \<lparr>DDS_PORT = 3, writes = []\<rparr>)) =
        map (bit (0x80010005 :: clong)) [0..<32] @ replicate 8 False"
    using ad9850_sequence [OF h, of "\<lambda>fx. 0x80010005" 14200000] by blast
  then show ?thesis using h by (simp only: e) simp
qed

section \<open>Loading the operating state\<close>

lemma sint_ucast_byte: "sint (ucast (b::byte) :: cint) = uint b"
proof -
  have "uint b < 256" using uint_lt2p [of b] by simp
  then show ?thesis
    by (simp add: signed_ucast_eq signed_take_bit_eq_take_bit_shift take_bit_int_eq_self)
qed

lemma load_band_range: "load_band ee = - 1 \<or> (0 \<le>s load_band ee \<and> load_band ee \<le>s 4)"
  by (simp add: load_band_def Let_def)

lemma load_band_eq:
  "load_band ee = (if ee OFF_LAST_BAND_USED \<le> 4 then ucast (ee OFF_LAST_BAND_USED) else - 1)"
  by (simp add: load_band_def Let_def word_sle_eq sint_ucast_byte word_le_def)

lemma band_cases:
  assumes "0 \<le>s (b::cint)" "b \<le>s 4"
  shows "b = 0 \<or> b = 1 \<or> b = 2 \<or> b = 3 \<or> b = 4"
proof -
  have "0 \<le> sint b" "sint b \<le> 4" using assms by (simp_all add: word_sle_eq)
  then have "sint b = 0 \<or> sint b = 1 \<or> sint b = 2 \<or> sint b = 3 \<or> sint b = 4" by arith
  moreover have "b = word_of_int (sint b)" by simp
  ultimately show ?thesis by (elim disjE) simp_all
qed

lemma ucast_byte_eq_iff:
  "(ucast (x::byte) :: cint) = 0 \<longleftrightarrow> x = 0" "(ucast x :: cint) = 1 \<longleftrightarrow> x = 1"
proof -
  have "(ucast x :: cint) = 0 \<longleftrightarrow> sint (ucast x :: cint) = sint (0 :: cint)"
    by (rule word_eq_iff_signed)
  also have "\<dots> \<longleftrightarrow> uint x = uint (0 :: byte)" by (simp only: sint_ucast_byte) simp
  also have "\<dots> \<longleftrightarrow> x = 0" by (simp only: word_uint_eq_iff)
  finally show "(ucast x :: cint) = 0 \<longleftrightarrow> x = 0" .
  have "(ucast x :: cint) = 1 \<longleftrightarrow> sint (ucast x :: cint) = sint (1 :: cint)"
    by (rule word_eq_iff_signed)
  also have "\<dots> \<longleftrightarrow> uint x = uint (1 :: byte)" by (simp only: sint_ucast_byte) simp
  also have "\<dots> \<longleftrightarrow> x = 1" by (simp only: word_uint_eq_iff)
  finally show "(ucast x :: cint) = 1 \<longleftrightarrow> x = 1" .
qed

lemma ucast_byte_ne_m1: "(ucast (x::byte) :: cint) \<noteq> - 1"
proof
  assume "(ucast x :: cint) = - 1"
  then have "sint (ucast x :: cint) = sint (- 1 :: cint)" by simp
  then have "uint x = - 1" by (simp only: sint_ucast_byte) simp
  then show False using uint_ge_0 [of x] by simp
qed

lemma load_vfo_eq:
  "load_vfo ee b = (if ee (b + OFF_VFO_DATA) = 0 \<or> ee (b + OFF_VFO_DATA) = 1
                    then ucast (ee (b + OFF_VFO_DATA)) else - 1)"
  by (simp add: load_vfo_def Let_def ucast_byte_eq_iff)

lemma c_freq_in_band:
  assumes "0 \<le>s b" "b \<le>s 4"
  shows "band_f0 b \<le>s c_freq b \<and> c_freq b \<le>s band_f1 b"
  using band_cases [OF assms]
  by (elim disjE) (simp_all add: band_f0_def band_f1_def c_freq_def word_sle_eq)

lemma thresh_eq:
  "(let t0 = (ucast (x::byte) :: cint) in if t0 <s 0 \<or> 12 <s t0 then 8 else t0) =
   (if x \<le> 12 then ucast x else 8)"
  by (auto simp add: Let_def word_sless_alt sint_ucast_byte word_le_def)

lemma load_tx_preset_eq:
  shows "load_tx_preset ee t =
     (if ee (128 + t * 2) \<le> 15
      then push_bit 8 (ucast (ee (128 + t * 2))) + ucast (ee (128 + t * 2 + 1)) else 2048)"
  and "0 \<le>s load_tx_preset ee t \<and> load_tx_preset ee t \<le>s 4095"
proof -
  let ?h = "ee (128 + t * 2)" and ?l = "ee (128 + t * 2 + 1)"
  let ?v = "push_bit 8 (ucast ?h :: cint) + ucast ?l"
  have l: "0 \<le> uint ?l" "uint ?l < 256" using uint_lt2p [of ?l] by simp_all
  have h: "0 \<le> uint ?h" "uint ?h < 256" using uint_lt2p [of ?h] by simp_all
  have "word_of_int (uint ?h * 256 + uint ?l) = ?v"
    by (simp add: push_bit_eq_mult)
  then have "sint ?v = sint (word_of_int (uint ?h * 256 + uint ?l) :: cint)" by simp
  then have v: "sint ?v = signed_take_bit 15 (uint ?h * 256 + uint ?l)"
    by (simp only: sint_sbintrunc') simp
  have iff: "(0 \<le> sint ?v \<and> sint ?v \<le> 4095) \<longleftrightarrow> uint ?h \<le> 15"
  proof (cases "uint ?h < 128")
    case True
    then have "uint ?h * 256 + uint ?l < 32768" using l by simp
    then have "signed_take_bit 15 (uint ?h * 256 + uint ?l) = uint ?h * 256 + uint ?l"
    proof (intro signed_take_bit_int_eq_self)
      have "0 \<le> uint ?h * 256 + uint ?l" by simp
      moreover have "- (2 ^ 15) \<le> (0::int)" by simp
      ultimately show "- (2 ^ 15) \<le> uint ?h * 256 + uint ?l" by (rule order_trans [rotated])
      show "uint ?h * 256 + uint ?l < 2 ^ 15" using True l by simp
    qed
    then have e: "sint ?v = uint ?h * 256 + uint ?l" by (simp only: v)
    have "\<And>a b::int. 0 \<le> a \<Longrightarrow> 0 \<le> b \<Longrightarrow> b < 256 \<Longrightarrow>
            (0 \<le> a * 256 + b \<and> a * 256 + b \<le> 4095) \<longleftrightarrow> a \<le> 15"
      by arith
    from this [OF h(1) l(1) l(2)] show ?thesis by (simp only: e)
  next
    case False
    define k where "k = uint ?h * 256 + uint ?l"
    have "\<And>a b::int. \<not> a < 128 \<Longrightarrow> a < 256 \<Longrightarrow> 0 \<le> b \<Longrightarrow> b < 256 \<Longrightarrow>
            32768 \<le> a * 256 + b \<and> a * 256 + b < 65536"
      by arith
    from this [OF False h(2) l(1) l(2)]
    have k: "32768 \<le> k" "k < 65536" by (simp_all only: k_def)
    have "k + 32768 = (k - 32768) + 65536" by arith
    then have "(k + 32768) mod 65536 = ((k - 32768) + 65536) mod 65536" by (simp only:)
    also have "\<dots> = (k - 32768) mod 65536" by (simp only: mod_add_self2)
    also have "\<dots> = k - 32768" using k by simp
    finally have "signed_take_bit 15 k = k - 65536"
      by (simp add: signed_take_bit_eq_take_bit_shift take_bit_eq_mod)
    then have "signed_take_bit 15 (uint ?h * 256 + uint ?l) < 0" using k by (simp add: k_def)
    then have "sint ?v < 0" by (simp only: v)
    then show ?thesis using False by simp
  qed
  show "load_tx_preset ee t = (if ?h \<le> 15 then ?v else 2048)"
    using iff by (simp add: load_tx_preset_def Let_def word_sle_eq word_le_def)
  show "0 \<le>s load_tx_preset ee t \<and> load_tx_preset ee t \<le>s 4095"
    by (simp add: load_tx_preset_def Let_def word_sle_eq)
qed



lemma load_presets_other: "eemem (load_presets n t s) = eemem s \<and> cur_band (load_presets n t s) = cur_band s
  \<and> cur_vfo (load_presets n t s) = cur_vfo s \<and> f_vfo (load_presets n t s) = f_vfo s
  \<and> thresh (load_presets n t s) = thresh s \<and> sideband (load_presets n t s) = sideband s"
  by (induction n arbitrary: t s) (simp_all add: Let_def)

lemma load_presets_5:
  "tx_preset (load_presets 5 0 s) =
     (tx_preset s)(0 := load_tx_preset (eemem s) 0, 1 := load_tx_preset (eemem s) 1,
       2 := load_tx_preset (eemem s) 2, 3 := load_tx_preset (eemem s) 3,
       4 := load_tx_preset (eemem s) 4)"
proof -
  have v: "(if load_tx_preset ee t <s 0 \<or> 4096 <s load_tx_preset ee t then 2048
            else load_tx_preset ee t) = load_tx_preset ee t" for ee t
    using load_tx_preset_eq(2) [of ee t] by (auto simp: word_sle_eq word_sless_alt)
  have "load_presets 5 0 s = load_presets (Suc (Suc (Suc (Suc (Suc 0))))) 0 s"
    by (simp add: eval_nat_numeral)
  then show ?thesis
    by (simp only: load_presets.simps Let_def v) simp
qed

lemma set_band_fields:
  "cur_band (set_band b s) = cur_band s" "cur_vfo (set_band b s) = cur_vfo s"
  "sideband (set_band b s) = sideband s" "f_vfo (set_band b s) = f_vfo s"
  "eemem (set_band b s) = eemem s" "thresh (set_band b s) = thresh s"
  "f_lo (set_band b s) = f_lo s" "dds_calls (set_band b s) = dds_calls s"
  "tx_preset (set_band b s) = tx_preset s"
  by (simp_all add: set_band_def set_lo_def si5351_set_freq_def relay_bit_def Let_def)


lemma startup_fields:
  fixes s0 :: radio
  defines "b \<equiv> (if load_band (eemem s0) = - 1 then 2 else load_band (eemem s0))"
  defines "v \<equiv> (if load_vfo (eemem s0) b = - 1 then 0 else load_vfo (eemem s0) b)"
  defines "f0 \<equiv> load_frequency (eemem s0) v b"
  shows "cur_band (startup s0) = b" "cur_vfo (startup s0) = v"
    "f_vfo (startup s0) b v = (if is_mem_freq_ok f0 b = 0 then c_freq b else f0)"
    "sideband (startup s0) = std_sideband b"
    "thresh (startup s0) = (let t0 = ucast (eemem s0 138) :: cint in if t0 <s 0 \<or> 12 <s t0 then 8 else t0)"
    "tx_preset (startup s0) = (tx_preset s0)(0 := load_tx_preset (eemem s0) 0, 1 := load_tx_preset (eemem s0) 1,
       2 := load_tx_preset (eemem s0) 2, 3 := load_tx_preset (eemem s0) 3,
       4 := load_tx_preset (eemem s0) 4)"
    "eemem (startup s0) = eemem s0"
  unfolding b_def v_def f0_def
  by (simp_all add: startup_def Let_def load_presets_other load_presets_5 set_band_fields set_f_vfo_def
      program_dds_def set_lo_def si5351_set_freq_def)

text \<open>
  Claim C5. Whatever the EEPROM holds, the load sequence of \<open>main\<close> ends in a valid state;
  the model has no error outcome. The band is the stored byte if that is at most 4 and band
  2 otherwise; the VFO is the stored byte if that is 0 or 1 and VFO A otherwise; the live
  frequency is the stored one if it lies within the edges of the band and the centre
  frequency of the band otherwise, so it lies within the edges; the sideband is the default
  of the band; each of the five TX presets is the stored 12-bit value if the first byte is
  at most 15 and 2048 otherwise, so it lies in \<open>[0, 4095]\<close>; the scan threshold is the stored
  byte if that is at most 12 and 8 otherwise.
\<close>

theorem startup_valid:
  "let s = startup s0; ee = eemem s0; b = cur_band s; v = cur_vfo s
   in b = (if ee OFF_LAST_BAND_USED \<le> 4 then ucast (ee OFF_LAST_BAND_USED) else 2) \<and>
      0 \<le>s b \<and> b \<le>s 4 \<and>
      v = (if ee (b + OFF_VFO_DATA) = 0 \<or> ee (b + OFF_VFO_DATA) = 1
           then ucast (ee (b + OFF_VFO_DATA)) else 0) \<and>
      (v = 0 \<or> v = 1) \<and>
      f_vfo s b v = (if band_f0 b \<le>s load_frequency ee v b \<and> load_frequency ee v b \<le>s band_f1 b
                     then load_frequency ee v b else c_freq b) \<and>
      band_f0 b \<le>s f_vfo s b v \<and> f_vfo s b v \<le>s band_f1 b \<and>
      sideband s = std_sideband b \<and>
      (\<forall>t \<in> {0, 1, 2, 3, 4}.
         tx_preset s t = (if ee (128 + t * 2) \<le> 15
                          then push_bit 8 (ucast (ee (128 + t * 2))) + ucast (ee (128 + t * 2 + 1))
                          else 2048) \<and>
         0 \<le>s tx_preset s t \<and> tx_preset s t \<le>s 4095) \<and>
      thresh s = (if ee 138 \<le> 12 then ucast (ee 138) else 8) \<and>
      0 \<le>s thresh s \<and> thresh s \<le>s 12"
proof -
  define ee where "ee = eemem s0"
  define b where "b = (if load_band ee = - 1 then 2 else load_band ee)"
  define v where "v = (if load_vfo ee b = - 1 then 0 else load_vfo ee b)"
  define f0 where "f0 = load_frequency ee v b"
  note sf = startup_fields [of s0, folded ee_def, folded b_def, folded v_def, folded f0_def]
  have b1: "b = (if ee OFF_LAST_BAND_USED \<le> 4 then ucast (ee OFF_LAST_BAND_USED) else 2)"
    by (simp add: b_def load_band_eq ucast_byte_ne_m1)
  have b2: "0 \<le>s b \<and> b \<le>s 4"
    using load_band_range [of ee] by (auto simp: b_def word_sle_eq)
  have v1: "v = (if ee (b + OFF_VFO_DATA) = 0 \<or> ee (b + OFF_VFO_DATA) = 1
           then ucast (ee (b + OFF_VFO_DATA)) else 0)"
    by (simp add: v_def load_vfo_eq ucast_byte_ne_m1)
  have v2: "v = 0 \<or> v = 1" by (auto simp: v1)
  have f1: "f_vfo (startup s0) b v = (if band_f0 b \<le>s f0 \<and> f0 \<le>s band_f1 b then f0 else c_freq b)"
    by (simp add: sf(3) is_mem_freq_ok_def)
  have f2: "band_f0 b \<le>s f_vfo (startup s0) b v \<and> f_vfo (startup s0) b v \<le>s band_f1 b"
    using c_freq_in_band [of b] b2 by (simp add: f1)
  have tx: "\<forall>t \<in> {0, 1, 2, 3, 4}.
         tx_preset (startup s0) t = (if ee (128 + t * 2) \<le> 15
                          then push_bit 8 (ucast (ee (128 + t * 2))) + ucast (ee (128 + t * 2 + 1))
                          else 2048) \<and>
         0 \<le>s tx_preset (startup s0) t \<and> tx_preset (startup s0) t \<le>s 4095"
    using load_tx_preset_eq(2) [of ee] by (simp add: sf(6) load_tx_preset_eq(1) [symmetric])
  have t1: "thresh (startup s0) = (if ee 138 \<le> 12 then ucast (ee 138) else 8)"
    by (simp only: sf(5) thresh_eq)
  have t2: "0 \<le>s thresh (startup s0) \<and> thresh (startup s0) \<le>s 12"
    by (simp add: t1 word_sle_eq sint_ucast_byte word_le_def)
  show ?thesis
    unfolding Let_def sf(1) sf(2) ee_def [symmetric] f0_def [symmetric]
    using b1 b2 v1 v2 f1 f2 sf(4) tx t1 t2 by (simp only: f0_def [symmetric]) 
qed


theorem startup_valid_witness:
  "(3::cint) \<in> {0, 1, 2, 3, 4} \<and>
   cur_band (startup (power_on blank_eeprom)) = 2 \<and>
   cur_vfo (startup (power_on blank_eeprom)) = 0 \<and>
   f_vfo (startup (power_on blank_eeprom)) 2 0 = 14180000 \<and>
   tx_preset (startup (power_on blank_eeprom)) 3 = 2048 \<and>
   thresh (startup (power_on blank_eeprom)) = 8"
proof -
  have ee: "eemem (power_on blank_eeprom) = (\<lambda>a. 255)"
    by (simp add: power_on_def blank_eeprom_def)
  have lf: "load_frequency (\<lambda>a. 255) 0 2 = - 1" by (simp add: load_frequency_def)
  note v = startup_valid [of "power_on blank_eeprom", unfolded Let_def ee]
  from v have b: "cur_band (startup (power_on blank_eeprom)) = 2" by simp
  from v have c: "cur_vfo (startup (power_on blank_eeprom)) = 0" by (simp add: b)
  from v have f: "f_vfo (startup (power_on blank_eeprom)) 2 0 = 14180000"
    by (simp add: b c lf band_f0_def c_freq_def word_sle_eq)
  from v have t: "tx_preset (startup (power_on blank_eeprom)) 3 = 2048" by simp
  from v have h: "thresh (startup (power_on blank_eeprom)) = 8" by simp
  show ?thesis using b c f t h by simp
qed

lemma set_band_lo_calls:
  "\<not> b <s 0 \<Longrightarrow> lo_calls (set_band b s) = lo_calls s @ [(SYNTH_MS_0, f_lo s (std_sideband b))]"
  by (simp add: set_band_def set_lo_def si5351_set_freq_def relay_bit_def Let_def)

lemma band_change_menu_effect:
  "cur_band (band_change_menu m s) = m \<and>
   cur_vfo (band_change_menu m s) = cur_vfo s \<and>
   sideband (band_change_menu m s) = sideband s \<and>
   f_vfo (band_change_menu m s) m (cur_vfo s) =
     (if band_f0 m \<le>s load_frequency (eemem s) (cur_vfo s) m \<and>
         load_frequency (eemem s) (cur_vfo s) m \<le>s band_f1 m
      then load_frequency (eemem s) (cur_vfo s) m else c_freq m) \<and>
   dds_calls (band_change_menu m s) =
     dds_calls s @ [f_vfo (band_change_menu m s) m (cur_vfo s) + f_lo s (sideband s)] \<and>
   (\<not> m <s 0 \<longrightarrow>
     lo_calls (band_change_menu m s) = lo_calls s @ [(SYNTH_MS_0, f_lo s (std_sideband m))])"
  by (simp add: band_change_menu_def Let_def set_band_fields set_band_lo_calls
      set_f_vfo_def program_dds_def is_mem_freq_ok_def)

lemma band_change_qsy_effect:
  "cur_band (band_change_qsy s) = (if cur_band s <s 4 then cur_band s + 1 else 0) \<and>
   cur_vfo (band_change_qsy s) = cur_vfo s \<and>
   sideband (band_change_qsy s) = sideband s \<and>
   f_vfo (band_change_qsy s) (cur_band (band_change_qsy s)) (cur_vfo s) =
     (if band_f0 (cur_band (band_change_qsy s))
           \<le>s load_frequency (eemem s) (cur_vfo s) (cur_band (band_change_qsy s)) \<and>
         load_frequency (eemem s) (cur_vfo s) (cur_band (band_change_qsy s))
           \<le>s band_f1 (cur_band (band_change_qsy s))
      then load_frequency (eemem s) (cur_vfo s) (cur_band (band_change_qsy s))
      else c_freq (cur_band (band_change_qsy s))) \<and>
   dds_calls (band_change_qsy s) =
     dds_calls s @ [f_vfo (band_change_qsy s) (cur_band (band_change_qsy s)) (cur_vfo s)
                    + f_lo s (sideband s)]"
  by (simp add: band_change_qsy_def Let_def set_band_fields
      set_f_vfo_def program_dds_def is_mem_freq_ok_def)

text \<open>
  Claim C2, where the code departs from it. The EEPROM holds band 1 (40 m, default sideband
  LSB) and is blank otherwise, so the radio starts on band 1 with \<open>sideband = 0\<close>. A change
  to band 2 (20 m, default sideband USB), by the menu or by the fast QSY key, loads the centre
  frequency 14180000 as the claim says, and \<open>set_band\<close> programs the LO with the USB
  frequency 9001800. The variable \<open>sideband\<close> stays 0: the DDS is programmed with
  \<open>14180000 + f_lo[0]\<close>, the LSB offset. The start-up path assigns
  \<open>sideband = std_sideband[cur_band]\<close> before \<open>set_band\<close>; the two band changes do not.
\<close>

theorem band_change_sideband_stale:
  "cur_band (startup (power_on (blank_eeprom(OFF_LAST_BAND_USED := 1)))) = 1 \<and>
   sideband (startup (power_on (blank_eeprom(OFF_LAST_BAND_USED := 1)))) = 0 \<and>
   std_sideband 2 = 1 \<and>
   cur_band (band_change_menu 2 (startup (power_on (blank_eeprom(OFF_LAST_BAND_USED := 1))))) = 2 \<and>
   sideband (band_change_menu 2 (startup (power_on (blank_eeprom(OFF_LAST_BAND_USED := 1))))) = 0 \<and>
   f_vfo (band_change_menu 2 (startup (power_on (blank_eeprom(OFF_LAST_BAND_USED := 1))))) 2 0
     = 14180000 \<and>
   last (dds_calls (band_change_menu 2 (startup (power_on (blank_eeprom(OFF_LAST_BAND_USED := 1))))))
     = 14180000 + 8998660 \<and>
   last (lo_calls (band_change_menu 2 (startup (power_on (blank_eeprom(OFF_LAST_BAND_USED := 1))))))
     = (SYNTH_MS_0, 9001800) \<and>
   cur_band (band_change_qsy (startup (power_on (blank_eeprom(OFF_LAST_BAND_USED := 1))))) = 2 \<and>
   sideband (band_change_qsy (startup (power_on (blank_eeprom(OFF_LAST_BAND_USED := 1))))) = 0 \<and>
   last (dds_calls (band_change_qsy (startup (power_on (blank_eeprom(OFF_LAST_BAND_USED := 1))))))
     = 14180000 + 8998660 \<and>
   last (lo_calls (band_change_qsy (startup (power_on (blank_eeprom(OFF_LAST_BAND_USED := 1))))))
     = (SYNTH_MS_0, 9001800)"
  by code_simp

section \<open>The value returned by the dual-VFO scan\<close>

lemma unsigned_of_signed_range:
  assumes "0 \<le>s (f::clong)" "f <s 0x10000000"
  shows "uint f < 268435456" "sint f = uint f"
proof -
  have s: "0 \<le> sint f" "sint f < 268435456"
    using assms by (simp_all add: word_sle_eq word_sless_alt)
  have u: "uint f = sint f" using s(1) by (rule uint_eq_sint_nonneg)
  show "uint f < 268435456" using s(2) u by simp
  show "sint f = uint f" using u by simp
qed

lemma encode_vfo_0:
  assumes "0 \<le>s (f::clong)" "f <s 0x10000000"
  shows "signed_drop_bit 28 f = 0" "f AND 0xFFFFFFF = f"
proof -
  note r = unsigned_of_signed_range [OF assms]
  have "sint (signed_drop_bit 28 f) = 0"
    using r by (simp add: sint_signed_drop_bit_eq drop_bit_eq_div)
  then show "signed_drop_bit 28 f = 0" by (simp add: signed_eq_0_iff)
  have "take_bit 28 f = f"
    using r(1) by (intro unsigned_word_eqI [where ?'a = int]) (simp add: unsigned_take_bit_eq take_bit_int_eq_self)
  moreover have "(0xFFFFFFF :: clong) = mask 28" by (simp add: mask_eq_exp_minus_1)
  ultimately show "f AND 0xFFFFFFF = f" by (simp only: take_bit_eq_mask [symmetric])
qed

lemma encode_vfo_1:
  assumes "0 \<le>s (f::clong)" "f <s 0x10000000"
  shows "signed_drop_bit 28 (0x10000000 + f) = 1" "(0x10000000 + f) AND 0xFFFFFFF = f"
proof -
  note r = unsigned_of_signed_range [OF assms]
  let ?x = "0x10000000 + f"
  have ux: "uint ?x = 268435456 + uint f"
    using r(1) by (simp add: uint_word_ariths take_bit_int_eq_self)
  then have sx: "sint ?x = 268435456 + uint f" 
    using r(1) sint_eq_uint_small [of ?x] by simp
  have "uint f div 268435456 = 0" using r(1) by simp
  then have "(268435456 + uint f) div 268435456 = 1"
    using div_add_self1 [of 268435456 "uint f"] by simp
  then have "sint (signed_drop_bit 28 ?x) = 1"
    by (simp add: sint_signed_drop_bit_eq drop_bit_eq_div sx)
  then have "sint (signed_drop_bit 28 ?x) = sint (1 :: clong)" by simp
  then show "signed_drop_bit 28 ?x = 1" by (rule signed_word_eqI)
  have "uint (take_bit 28 ?x) = uint f"
    using r(1) by (simp only: unsigned_take_bit_eq ux) (simp add: take_bit_eq_mod)
  then have "take_bit 28 ?x = f" by (rule unsigned_word_eqI)
  moreover have "(0xFFFFFFF :: clong) = mask 28" by (simp add: mask_eq_exp_minus_1)
  ultimately show "?x AND 0xFFFFFFF = f" by (simp only: take_bit_eq_mask [symmetric])
qed


lemma vmanual_tune_keeps:
  "t1 (vmanual_tune ob c v) = t1 v" "vkey (vmanual_tune ob c v) = vkey v"
  "cur_band (vr (vmanual_tune ob c v)) = cur_band (vr v)"
  by (simp_all add: vmanual_tune_def Let_def set_f_vfo_def)

lemma vstop_loop_keeps:
  "vstop_loop u xs = Went u' ys \<Longrightarrow> t1 u' = t1 u \<and> cur_band (vr u') = cur_band (vr u)"
proof (induction xs arbitrary: u)
  case Nil
  then show ?case by (simp split: if_splits)
next
  case (Cons ob rest)
  show ?case
  proof (cases "thresh (vr u) <s vsval u \<and> vkey u = 0")
    case True
    with Cons.prems have "vstop_loop (vmanual_tune ob (Some (o_clock ob))
                (u\<lparr>vsval := o_sval ob, vkey := o_key ob,
                   vtrace := vtrace u @ [Measure (vfo_f u) (o_sval ob)]\<rparr>)) rest = Went u' ys"
      by simp
    from Cons.IH [OF this] show ?thesis by (simp add: vmanual_tune_keeps)
  next
    case False
    with Cons.prems show ?thesis by auto
  qed
qed

lemma vwait_loop_keeps:
  "vwait_loop u xs = Went u' ys \<Longrightarrow> t1 u' = t1 u \<and> cur_band (vr u') = cur_band (vr u)"
proof (induction xs arbitrary: u)
  case Nil
  then show ?case by simp
next
  case (Cons ob rest)
  show ?case
  proof (cases "o_clock ob <s vthresh u + 30")
    case True
    with Cons.prems have "vwait_loop (vmanual_tune ob (Some (o_clock2 ob))
                (u\<lparr>vkey := o_key ob,
                   vthresh := (if o_key ob \<noteq> 0 then 0 else vthresh u),
                   vtrace := vtrace u @ [Clock (o_clock ob)]\<rparr>)) rest = Went u' ys"
      by simp
    from Cons.IH [OF this] show ?thesis by (simp add: vmanual_tune_keeps)
  next
    case False
    with Cons.prems show ?thesis by auto
  qed
qed

lemma vscan_body_keeps:
  assumes "vscan_body v obs = Went v' obs'"
  shows "t1 v' = t1 v \<and> cur_band (vr v') = cur_band (vr v)"
  using assms unfolding vscan_body_def
  by (auto split: list.splits step.splits dest!: vstop_loop_keeps vwait_loop_keeps
      simp: vmanual_tune_keeps)

lemma valternate_returned:
  "valternate v obs = Returned x v' \<Longrightarrow> vkey v \<noteq> 2 \<Longrightarrow> t1 v = 0 \<or> t1 v = 1 \<or> t1 v = 2 \<Longrightarrow>
   (vkey v' = 2 \<and> (t1 v' = 0 \<or> t1 v' = 1) \<and> x = push_bit 28 (scast (t1 v')) + vfo_f v') \<or>
   (vkey v' = 3 \<and> x = 0)"
proof (induction v obs rule: valternate.induct)
  case (1 v obs)
  note run = "1.prems"(1) [unfolded valternate.simps [of v obs]]
  show ?case
  proof (cases "t1 v <s 2")
    case True
    then have t: "t1 v = 0 \<or> t1 v = 1" using "1.prems"(3) by (auto simp: word_sless_alt)
    show ?thesis
    proof (cases "vscan_body v obs")
      case (Starved u)
      with True run show ?thesis by simp
    next
      case (Went u obs')
      note k = vscan_body_keeps [OF Went]
      show ?thesis
      proof (cases "vkey u = 2 \<or> vkey u = 3")
        case True
        with \<open>t1 v <s 2\<close> Went run t k show ?thesis by auto
      next
        case False
        then have a: "vkey u \<noteq> 2" "vkey u \<noteq> 3" by simp_all
        have r: "valternate (u\<lparr>vkey := 0, t1 := t1 u + 1\<rparr>) obs' = Returned x v'"
          using \<open>t1 v <s 2\<close> Went a run by simp
        have "t1 (u\<lparr>vkey := 0, t1 := t1 u + 1\<rparr>) = 0 \<or> t1 (u\<lparr>vkey := 0, t1 := t1 u + 1\<rparr>) = 1
              \<or> t1 (u\<lparr>vkey := 0, t1 := t1 u + 1\<rparr>) = 2"
          using t k by auto
        from "1.IH"(1) [OF \<open>t1 v <s 2\<close> Went a r _ this] show ?thesis by simp
      qed
    qed
  next
    case False
    have r: "valternate (v\<lparr>t1 := 0\<rparr>) obs = Returned x v'"
      using False "1.prems"(2) run by simp
    from "1.IH"(2) [OF False "1.prems"(2) r] "1.prems"(2) show ?thesis by simp
  qed
qed

lemma vfo_scan_result_decodes:
  assumes "t = 0 \<or> t = 1" "0 \<le>s f" "f <s 0x10000000" "f \<noteq> 0"
  shows "cur_vfo (vfo_scan_result (push_bit 28 (scast (t::cint)) + f) s) = t \<and>
         f_vfo (vfo_scan_result (push_bit 28 (scast t) + f) s) (cur_band s) t = f \<and>
         last (dds_calls (vfo_scan_result (push_bit 28 (scast t) + f) s)) = f + f_lo s (sideband s)"
  using assms(1)
proof
  assume "t = 0"
  then show ?thesis using encode_vfo_0 [OF assms(2,3)] assms(4)
    by (simp add: vfo_scan_result_def Let_def set_f_vfo_def program_dds_def)
next
  assume "t = 1"
  then show ?thesis using encode_vfo_1 [OF assms(2,3)] assms(4)
    by (simp add: vfo_scan_result_def Let_def set_f_vfo_def program_dds_def)
qed

text \<open>
  Claim C8. When \<open>scan_vfoa_vfob\<close> returns through the accept key (\<open>key = 2\<close>) with the loop
  index \<open>t1\<close> and the frequency \<open>f = f_vfo[cur_band][t1]\<close>, then \<open>t1\<close> is 0 or 1 and the value
  is \<open>(t1 << 28) + f\<close>. For \<open>0 \<le> f < 2^28\<close> the decoding of \<open>main\<close> gets both back: the value
  shifted right by 28 is \<open>t1\<close> and the value masked with \<open>0xFFFFFFF\<close> is \<open>f\<close>; for \<open>f \<noteq> 0\<close>,
  where \<open>main\<close> takes the result, it selects VFO \<open>t1\<close> and stores \<open>f\<close> as its frequency.
\<close>

theorem vfo_scan_encoding:
  assumes "result_of (scan_vfoa_vfob r obs) = Some x"
    and "vkey (vars_of (scan_vfoa_vfob r obs)) = 2"
    and "0 \<le>s vfo_f (vars_of (scan_vfoa_vfob r obs))"
    and "vfo_f (vars_of (scan_vfoa_vfob r obs)) <s 0x10000000"
  shows "(t1 (vars_of (scan_vfoa_vfob r obs)) = 0 \<or> t1 (vars_of (scan_vfoa_vfob r obs)) = 1) \<and>
     x = push_bit 28 (scast (t1 (vars_of (scan_vfoa_vfob r obs))))
           + vfo_f (vars_of (scan_vfoa_vfob r obs)) \<and>
     ucast (signed_drop_bit 28 x) = t1 (vars_of (scan_vfoa_vfob r obs)) \<and>
     x AND 0xFFFFFFF = vfo_f (vars_of (scan_vfoa_vfob r obs)) \<and>
     (vfo_f (vars_of (scan_vfoa_vfob r obs)) \<noteq> 0 \<longrightarrow>
        cur_vfo (vfo_scan_result x (vr (vars_of (scan_vfoa_vfob r obs))))
          = t1 (vars_of (scan_vfoa_vfob r obs)) \<and>
        f_vfo (vfo_scan_result x (vr (vars_of (scan_vfoa_vfob r obs))))
            (cur_band (vr (vars_of (scan_vfoa_vfob r obs)))) (t1 (vars_of (scan_vfoa_vfob r obs)))
          = vfo_f (vars_of (scan_vfoa_vfob r obs)))"
proof -
  from assms(1) obtain v where ret: "scan_vfoa_vfob r obs = Returned x v"
    by (cases "scan_vfoa_vfob r obs") simp_all
  then have v: "vars_of (scan_vfoa_vfob r obs) = v" by simp
  have k: "vkey v = 2" and f: "0 \<le>s vfo_f v" "vfo_f v <s 0x10000000"
    using assms(2-4) by (simp_all only: v)
  from ret have "valternate \<lparr>vr = r, t1 = 0, vkey = 0, vsval = 0, vthresh = 0, vtrace = []\<rparr> obs
                 = Returned x v"
    by (simp add: scan_vfoa_vfob_def)
  from valternate_returned [OF this] k
  have t: "t1 v = 0 \<or> t1 v = 1" and x: "x = push_bit 28 (scast (t1 v)) + vfo_f v" by auto
  have d: "ucast (signed_drop_bit 28 x) = t1 v \<and> x AND 0xFFFFFFF = vfo_f v"
    using t encode_vfo_0 [OF f] encode_vfo_1 [OF f] by (auto simp: x)
  have c: "vfo_f v \<noteq> 0 \<longrightarrow>
        cur_vfo (vfo_scan_result x (vr v)) = t1 v \<and>
        f_vfo (vfo_scan_result x (vr v)) (cur_band (vr v)) (t1 v) = vfo_f v"
    using vfo_scan_result_decodes [OF t f] by (simp add: x)
  show ?thesis unfolding v using t x d c by blast
qed

theorem vfo_scan_encoding_witness:
  "result_of (scan_vfoa_vfob (startup (power_on blank_eeprom))
     (replicate 3 \<lparr>o_key = 0, o_sval = 3, o_knob = 0, o_count = 0, o_clock = 100, o_clock2 = 100\<rparr> @
      replicate 2 \<lparr>o_key = 0, o_sval = 3, o_knob = 0, o_count = 0, o_clock = 130, o_clock2 = 130\<rparr> @
      replicate 5 \<lparr>o_key = 2, o_sval = 3, o_knob = 0, o_count = 0, o_clock = 130, o_clock2 = 130\<rparr>))
     = Some 282715456 \<and>
   vkey (vars_of (scan_vfoa_vfob (startup (power_on blank_eeprom))
     (replicate 3 \<lparr>o_key = 0, o_sval = 3, o_knob = 0, o_count = 0, o_clock = 100, o_clock2 = 100\<rparr> @
      replicate 2 \<lparr>o_key = 0, o_sval = 3, o_knob = 0, o_count = 0, o_clock = 130, o_clock2 = 130\<rparr> @
      replicate 5 \<lparr>o_key = 2, o_sval = 3, o_knob = 0, o_count = 0, o_clock = 130, o_clock2 = 130\<rparr>))) = 2 \<and>
   vfo_f (vars_of (scan_vfoa_vfob (startup (power_on blank_eeprom))
     (replicate 3 \<lparr>o_key = 0, o_sval = 3, o_knob = 0, o_count = 0, o_clock = 100, o_clock2 = 100\<rparr> @
      replicate 2 \<lparr>o_key = 0, o_sval = 3, o_knob = 0, o_count = 0, o_clock = 130, o_clock2 = 130\<rparr> @
      replicate 5 \<lparr>o_key = 2, o_sval = 3, o_knob = 0, o_count = 0, o_clock = 130, o_clock2 = 130\<rparr>))) = 14280000 \<and>
   ucast (signed_drop_bit 28 (282715456 :: clong)) = (1 :: cint) \<and>
   (282715456 :: clong) AND 0xFFFFFFF = 14280000"
proof -
  let ?run = "scan_vfoa_vfob (startup (power_on blank_eeprom))
     (replicate 3 \<lparr>o_key = 0, o_sval = 3, o_knob = 0, o_count = 0, o_clock = 100, o_clock2 = 100\<rparr> @
      replicate 2 \<lparr>o_key = 0, o_sval = 3, o_knob = 0, o_count = 0, o_clock = 130, o_clock2 = 130\<rparr> @
      replicate 5 \<lparr>o_key = 2, o_sval = 3, o_knob = 0, o_count = 0, o_clock = 130, o_clock2 = 130\<rparr>)"
  have 1: "result_of ?run = Some 282715456" by code_simp
  have 2: "vkey (vars_of ?run) = 2" by code_simp
  have 3: "vfo_f (vars_of ?run) = 14280000" by code_simp
  have 4: "t1 (vars_of ?run) = 1" by code_simp
  have 5: "0 \<le>s vfo_f (vars_of ?run)" "vfo_f (vars_of ?run) <s 0x10000000"
    by (simp_all add: 3 word_sle_eq word_sless_alt)
  from vfo_scan_encoding [OF 1 2 5]
  have "ucast (signed_drop_bit 28 (282715456 :: clong)) = t1 (vars_of ?run) \<and>
        (282715456 :: clong) AND 0xFFFFFFF = vfo_f (vars_of ?run)"
    by blast
  then have "ucast (signed_drop_bit 28 (282715456 :: clong)) = (1 :: cint) \<and>
        (282715456 :: clong) AND 0xFFFFFFF = 14280000"
    by (simp only: 3 4)
  with 1 2 3 show ?thesis by blast
qed

section \<open>The edge-to-edge scan\<close>

lemma dds_after_append: "dds_after d (xs @ ys) = dds_after (dds_after d xs) ys"
  by (induction d xs rule: dds_after.induct) simp_all

lemma on_frequency_append:
  "on_frequency lo d (xs @ ys) \<longleftrightarrow> on_frequency lo d xs \<and> on_frequency lo (dds_after d xs) ys"
  by (induction lo d xs rule: on_frequency.induct) auto

lemma clock_reads_append: "clock_reads (xs @ ys) = clock_reads xs @ clock_reads ys"
  by (induction xs rule: clock_reads.induct) simp_all

lemma levels_append: "levels (xs @ ys) = levels xs @ levels ys"
  by (induction xs rule: levels.induct) simp_all

lemma programs_append: "programs (xs @ ys) = programs xs @ programs ys"
  by (induction xs rule: programs.induct) simp_all

lemma after_measure_snoc:
  "after_measure (es @ [e]) = (if is_reading e then [] else after_measure es @ [e])"
  by (simp add: after_measure_def)

lemma manual_tune_fields:
  "key (manual_tune r ob v) = key v" "sval (manual_tune r ob v) = sval v"
  "wait (manual_tune r ob v) = wait v" "runsecs10thresh (manual_tune r ob v) = runsecs10thresh v"
  by (simp_all add: manual_tune_def Let_def)

lemma manual_tune_trace:
  "trace (manual_tune r ob v) =
     trace v @ (if tuned (fx v) ob \<noteq> 0 then [Program (tuned (fx v) ob + f_lo r (sideband r))] else [])"
  "fx (manual_tune r ob v) = (if tuned (fx v) ob \<noteq> 0 then tuned (fx v) ob else fx v)"
  by (simp_all add: manual_tune_def Let_def)

lemma manual_tune_inv:
  assumes "on_frequency lo None (trace v)" "dds_after None (trace v) = Some (fx v + lo)"
    and "lo = f_lo r (sideband r)"
  shows "on_frequency lo None (trace (manual_tune r ob v))"
    "dds_after None (trace (manual_tune r ob v)) = Some (fx (manual_tune r ob v) + lo)"
  using assms by (simp_all add: manual_tune_trace on_frequency_append dds_after_append)

lemma stop_loop_inv:
  assumes "lo = f_lo r (sideband r)"
  shows "on_frequency lo None (trace v) \<Longrightarrow> dds_after None (trace v) = Some (fx v + lo) \<Longrightarrow>
    on_frequency lo None (trace (state_of (stop_loop r v obs))) \<and>
    dds_after None (trace (state_of (stop_loop r v obs))) = Some (fx (state_of (stop_loop r v obs)) + lo)"
proof (induction obs arbitrary: v)
  case Nil
  then show ?case by simp
next
  case (Cons ob rest)
  let ?v = "v\<lparr>sval := o_sval ob, key := o_key ob, wait := 1,
                trace := trace v @ [Measure (fx v) (o_sval ob)]\<rparr>"
  have 1: "on_frequency lo None (trace ?v)" "dds_after None (trace ?v) = Some (fx ?v + lo)"
    using Cons.prems by (simp_all add: on_frequency_append dds_after_append)
  note 2 = manual_tune_inv [OF 1 assms, of ob]
  show ?case using Cons.IH [OF 2] Cons.prems by simp
qed

lemma wait_loop_inv:
  assumes "lo = f_lo r (sideband r)"
  shows "on_frequency lo None (trace v) \<Longrightarrow> dds_after None (trace v) = Some (fx v + lo) \<Longrightarrow>
    on_frequency lo None (trace (state_of (wait_loop r v obs))) \<and>
    dds_after None (trace (state_of (wait_loop r v obs))) = Some (fx (state_of (wait_loop r v obs)) + lo)"
proof (induction obs arbitrary: v)
  case Nil
  then show ?case by simp
next
  case (Cons ob rest)
  let ?v = "v\<lparr>key := o_key ob,
                   runsecs10thresh := (if o_key ob \<noteq> 0 then 0 else runsecs10thresh v),
                   trace := trace v @ [Clock (o_clock ob)]\<rparr>"
  have 1: "on_frequency lo None (trace ?v)" "dds_after None (trace ?v) = Some (fx ?v + lo)"
    using Cons.prems by (simp_all add: on_frequency_append dds_after_append)
  note 2 = manual_tune_inv [OF 1 assms, of ob]
  show ?case using Cons.IH [OF 2] Cons.prems
    by (simp add: on_frequency_append dds_after_append)
qed


lemma scan_body_inv:
  assumes lo: "lo = f_lo r (sideband r)" and tr: "on_frequency lo None (trace v)"
  shows "on_frequency lo None (trace (state_of (scan_body r v obs)))"
proof (cases obs)
  case Nil
  then show ?thesis using tr by (simp add: scan_body_def)
next
  case (Cons o1 obs1)
  let ?v1 = "v\<lparr>key := o_key o1, sval := o_sval o1,
                trace := trace v @ [Program (fx v + f_lo r (sideband r)),
                                    Measure (fx v) (o_sval o1)]\<rparr>"
  have 1: "on_frequency lo None (trace ?v1)" "dds_after None (trace ?v1) = Some (fx ?v1 + lo)"
    using tr lo by (simp_all add: on_frequency_append dds_after_append)
  note s = stop_loop_inv [OF lo 1, of obs1]
  show ?thesis
  proof (cases "stop_loop r ?v1 obs1")
    case (Starved v2)
    then show ?thesis using s Cons by (simp add: scan_body_def)
  next
    case (Went v2 obs2)
    then have 2: "on_frequency lo None (trace v2)" "dds_after None (trace v2) = Some (fx v2 + lo)"
      using s by simp_all
    show ?thesis
    proof (cases obs2)
      case Nil
      then show ?thesis using 2 Went Cons by (simp add: scan_body_def)
    next
      case (Cons o3 obs3)
      let ?v3 = "v2\<lparr>runsecs10thresh := o_clock o3, trace := trace v2 @ [Clock (o_clock o3)]\<rparr>"
      let ?w = "if wait v2 \<noteq> 0 then wait_loop r ?v3 obs3 else Went ?v3 obs3"
      have 3: "on_frequency lo None (trace ?v3)" "dds_after None (trace ?v3) = Some (fx ?v3 + lo)"
        using 2 by (simp_all add: on_frequency_append dds_after_append)
      have w: "on_frequency lo None (trace (state_of ?w)) \<and>
               dds_after None (trace (state_of ?w)) = Some (fx (state_of ?w) + lo)"
        using wait_loop_inv [OF lo 3, of obs3] 3 by simp
      have b: "scan_body r v obs =
          (case ?w of Starved v4 \<Rightarrow> Starved v4 | Went v4 [] \<Rightarrow> Starved v4
           | Went v4 (o5 # obs5) \<Rightarrow>
               Went (manual_tune r o5 (if wait v4 \<noteq> 0 then v4\<lparr>wait := 0\<rparr> else v4)) obs5)"
        using \<open>obs = o1 # obs1\<close> Went Cons by (simp add: scan_body_def)
      show ?thesis
      proof (cases ?w)
        case (Starved v4)
        then show ?thesis using w b by simp
      next
        case (Went v4 obs4)
        then have 4: "on_frequency lo None (trace v4)" "dds_after None (trace v4) = Some (fx v4 + lo)"
          using w by simp_all
        show ?thesis
        proof (cases obs4)
          case Nil
          then show ?thesis using 4 Went b by simp
        next
          case (Cons o5 obs5)
          let ?v5 = "if wait v4 \<noteq> 0 then v4\<lparr>wait := 0\<rparr> else v4"
          have 5: "on_frequency lo None (trace ?v5)" "dds_after None (trace ?v5) = Some (fx ?v5 + lo)"
            using 4 by simp_all
          from manual_tune_inv(1) [OF 5 lo, of o5] show ?thesis
            using Went Cons b by simp
        qed
      qed
    qed
  qed
qed

lemma sweep_inv:
  "lo = f_lo r (sideband r) \<Longrightarrow> on_frequency lo None (trace v) \<Longrightarrow>
   on_frequency lo None (trace (vars_of (sweep r f0 f1 v obs)))"
proof (induction r f0 f1 v obs rule: sweep.induct)
  case (1 r f0 f1 v obs)
  note lo' = "1.prems"(1) and tr = "1.prems"(2)
  note unf = sweep.simps [of r f0 f1 v obs]
  show ?case
  proof (cases "fx v <s f1")
    case True
    note b = scan_body_inv [OF lo' tr, of obs]
    show ?thesis
    proof (cases "scan_body r v obs")
      case (Starved v')
      then show ?thesis using True b by (simp add: unf)
    next
      case (Went v' obs')
      then have t: "on_frequency lo None (trace v')" using b by simp
      show ?thesis
      proof (cases "key v' = 2 \<or> key v' = 3")
        case True
        then show ?thesis using \<open>fx v <s f1\<close> Went t by (auto simp: unf)
      next
        case False
        then have k: "key v' \<noteq> 2" "key v' \<noteq> 3" by simp_all
        have "on_frequency lo None (trace (v'\<lparr>key := 0, fx := fx v' + 100\<rparr>))" using t by simp
        from "1.IH"(1) [OF True Went k lo' this] show ?thesis
          using True Went k by (simp add: unf)
      qed
    qed
  next
    case False
    show ?thesis
    proof (cases "key v = 2")
      case True
      then show ?thesis using False tr by (simp add: unf)
    next
      case k: False
      show ?thesis
      proof (cases "f0 <s f1")
        case True
        have "on_frequency lo None (trace (v\<lparr>fx := f0\<rparr>))" using tr by simp
        from "1.IH"(2) [OF False k True lo' this] show ?thesis
          using False k True by (simp add: unf)
      next
        case False
        then show ?thesis using \<open>\<not> fx v <s f1\<close> k tr by (simp add: unf)
      qed
    qed
  qed
qed

lemma scan_f0_f1_on_frequency:
  "on_frequency (f_lo r (sideband r)) None (trace (vars_of (scan_f0_f1 r wait0 obs)))"
  unfolding scan_f0_f1_def Let_def
  by (rule sweep_inv) simp_all


lemma scan_body_Went:
  assumes "scan_body r v obs = Went v' rest"
  obtains o1 obs1 v2 o3 obs3 v4 o5 where
    "obs = o1 # obs1"
    "stop_loop r (v\<lparr>key := o_key o1, sval := o_sval o1,
        trace := trace v @ [Program (fx v + f_lo r (sideband r)), Measure (fx v) (o_sval o1)]\<rparr>) obs1
       = Went v2 (o3 # obs3)"
    "(if wait v2 \<noteq> 0
      then wait_loop r (v2\<lparr>runsecs10thresh := o_clock o3, trace := trace v2 @ [Clock (o_clock o3)]\<rparr>) obs3
      else Went (v2\<lparr>runsecs10thresh := o_clock o3, trace := trace v2 @ [Clock (o_clock o3)]\<rparr>) obs3)
       = Went v4 (o5 # rest)"
    "v' = manual_tune r o5 (if wait v4 \<noteq> 0 then v4\<lparr>wait := 0\<rparr> else v4)"
  using assms unfolding scan_body_def
  by (auto split: list.splits step.splits)

lemma stop_loop_exit:
  "stop_loop r v obs = Went v' rest \<Longrightarrow> \<not> (thresh r <s sval v' \<and> key v' = 0)"
  by (induction obs arbitrary: v) (auto split: if_splits simp: manual_tune_fields)

lemma stop_loop_entered:
  "stop_loop r v obs = Went v' rest \<Longrightarrow> thresh r <s sval v \<and> key v = 0 \<Longrightarrow> wait v' = 1"
proof (induction obs arbitrary: v)
  case Nil
  then show ?case by simp
next
  case (Cons ob obs)
  let ?u = "manual_tune r ob (v\<lparr>sval := o_sval ob, key := o_key ob, wait := 1,
                trace := trace v @ [Measure (fx v) (o_sval ob)]\<rparr>)"
  have s: "stop_loop r ?u obs = Went v' rest" using Cons.prems by simp
  show ?case
  proof (cases "thresh r <s sval ?u \<and> key ?u = 0")
    case True
    from Cons.IH [OF s True] show ?thesis .
  next
    case False
    then have "stop_loop r ?u obs = Went ?u obs" by (cases obs) auto
    with s have "v' = ?u" by simp
    moreover have "wait ?u = 1" by (simp add: manual_tune_fields)
    ultimately show ?thesis by (simp only:)
  qed
qed

lemma stop_loop_keys:
  "stop_loop r v obs = Went v' rest \<Longrightarrow> key v = 0 \<Longrightarrow> \<forall>ob \<in> set obs. o_key ob = 0 \<Longrightarrow>
   key v' = 0 \<and> set rest \<subseteq> set obs"
proof (induction obs arbitrary: v)
  case Nil
  then show ?case by (simp split: if_splits)
next
  case (Cons ob obs)
  show ?case
  proof (cases "thresh r <s sval v \<and> key v = 0")
    case True
    let ?u = "manual_tune r ob (v\<lparr>sval := o_sval ob, key := o_key ob, wait := 1,
                trace := trace v @ [Measure (fx v) (o_sval ob)]\<rparr>)"
    have s: "stop_loop r ?u obs = Went v' rest" using Cons.prems(1) True by simp
    have k: "key ?u = 0" using Cons.prems(3) by (simp add: manual_tune_fields)
    have a: "\<forall>ob \<in> set obs. o_key ob = 0" using Cons.prems(3) by simp
    from Cons.IH [OF s k a] show ?thesis by auto
  next
    case False
    then have "v' = v" "rest = ob # obs" using Cons.prems(1) by auto
    then show ?thesis using Cons.prems(2) by simp
  qed
qed

lemma after_measure_append:
  assumes "\<forall>e \<in> set es. \<not> is_reading e"
  shows "after_measure (tr @ es) = after_measure tr @ es"
proof -
  have "takeWhile (\<lambda>e. \<not> is_reading e) (rev es @ rev tr) =
        rev es @ takeWhile (\<lambda>e. \<not> is_reading e) (rev tr)"
    using assms by (intro takeWhile_append2) simp
  then show ?thesis by (simp add: after_measure_def)
qed

lemma after_measure_snoc2:
  "after_measure (es @ [e1, e2]) =
     (if is_reading e2 then []
      else (if is_reading e1 then [] else after_measure es @ [e1]) @ [e2])"
  by (simp add: after_measure_def)

lemma stop_loop_no_clock:
  "clock_reads (after_measure (trace v)) = [] \<Longrightarrow>
   clock_reads (after_measure (trace (state_of (stop_loop r v obs)))) = []"
proof (induction obs arbitrary: v)
  case Nil
  then show ?case by simp
next
  case (Cons ob obs)
  let ?u = "manual_tune r ob (v\<lparr>sval := o_sval ob, key := o_key ob, wait := 1,
                trace := trace v @ [Measure (fx v) (o_sval ob)]\<rparr>)"
  have "clock_reads (after_measure (trace ?u)) = []"
    by (simp add: manual_tune_trace after_measure_snoc after_measure_snoc2)
  from Cons.IH [OF this] Cons.prems show ?case by simp
qed

lemma wait_loop_no_key:
  "wait_loop r v obs = Went v' rest \<Longrightarrow> \<forall>ob \<in> set obs. o_key ob = 0 \<Longrightarrow>
   runsecs10thresh v' = runsecs10thresh v \<and> wait v' = wait v \<and> set rest \<subseteq> set obs \<and>
   (\<exists>cs. cs \<noteq> [] \<and>
         clock_reads (after_measure (trace v')) = clock_reads (after_measure (trace v)) @ cs \<and>
         \<not> last cs <s runsecs10thresh v + 30)"
proof (induction obs arbitrary: v)
  case Nil
  then show ?case by simp
next
  case (Cons ob obs)
  show ?case
  proof (cases "o_clock ob <s runsecs10thresh v + 30")
    case True
    let ?u = "manual_tune r ob (v\<lparr>key := o_key ob,
                   runsecs10thresh := (if o_key ob \<noteq> 0 then 0 else runsecs10thresh v),
                   trace := trace v @ [Clock (o_clock ob)]\<rparr>)"
    have k: "o_key ob = 0" using Cons.prems(2) by simp
    have s: "wait_loop r ?u obs = Went v' rest" using Cons.prems(1) True by simp
    have a: "\<forall>ob \<in> set obs. o_key ob = 0" using Cons.prems(2) by simp
    from Cons.IH [OF s a] obtain cs where cs: "cs \<noteq> []"
      "clock_reads (after_measure (trace v')) = clock_reads (after_measure (trace ?u)) @ cs"
      "\<not> last cs <s runsecs10thresh ?u + 30"
      and f: "runsecs10thresh v' = runsecs10thresh ?u" "wait v' = wait ?u" "set rest \<subseteq> set obs"
      by blast
    have u: "clock_reads (after_measure (trace ?u)) = clock_reads (after_measure (trace v)) @ [o_clock ob]"
      by (simp add: manual_tune_trace after_measure_snoc after_measure_snoc2 clock_reads_append)
    have "clock_reads (after_measure (trace v')) =
          clock_reads (after_measure (trace v)) @ (o_clock ob # cs)"
      by (simp add: cs(2) u)
    moreover have "\<not> last (o_clock ob # cs) <s runsecs10thresh v + 30"
      using cs(1,3) k by (simp add: manual_tune_fields)
    ultimately show ?thesis using f k by (auto simp: manual_tune_fields)
  next
    case False
    then have v': "v' = v\<lparr>trace := trace v @ [Clock (o_clock ob)]\<rparr>" "rest = obs"
      using Cons.prems(1) by simp_all
    have "clock_reads (after_measure (trace v')) = clock_reads (after_measure (trace v)) @ [o_clock ob]"
      by (simp add: v' after_measure_snoc clock_reads_append)
    then show ?thesis using False v' by auto
  qed
qed


lemma sint_plus_30:
  assumes "sint (c::clong) \<le> 2147483617"
  shows "sint (c + 30) = sint c + 30"
proof -
  have lo: "- 2147483648 \<le> sint c" using sint_ge [of c] by simp
  have "c + 30 = word_of_int (sint c + 30)" by simp
  then have "sint (c + 30) = signed_take_bit 31 (sint c + 30)"
    by (simp only: sint_sbintrunc') simp
  also have "\<dots> = sint c + 30"
    using lo assms by (intro signed_take_bit_int_eq_self) simp_all
  finally show ?thesis .
qed

lemma dwell_elapsed:
  assumes "\<not> c <s c0 + 30" "sint (c0::clong) \<le> 2147483617"
  shows "sint c0 + 30 \<le> sint c"
  using assms(1) sint_plus_30 [OF assms(2)] by (simp add: word_sless_alt)

lemma scan_body_dwell:
  assumes b: "scan_body r v (o1 # obs) = Went v' rest"
    and e: "thresh r <s o_sval o1" "o_key o1 = 0"
    and k: "\<forall>ob \<in> set obs. o_key ob = 0"
  shows "\<exists>c0 cs. clock_reads (after_measure (trace v')) = c0 # cs \<and> cs \<noteq> [] \<and>
           \<not> last cs <s c0 + 30 \<and> (sint c0 \<le> 2147483617 \<longrightarrow> sint c0 + 30 \<le> sint (last cs))"
proof -
  let ?v1 = "v\<lparr>key := o_key o1, sval := o_sval o1,
        trace := trace v @ [Program (fx v + f_lo r (sideband r)), Measure (fx v) (o_sval o1)]\<rparr>"
  from b obtain v2 o3 obs3 v4 o5 where
    st: "stop_loop r ?v1 obs = Went v2 (o3 # obs3)" and
    wt: "(if wait v2 \<noteq> 0
      then wait_loop r (v2\<lparr>runsecs10thresh := o_clock o3, trace := trace v2 @ [Clock (o_clock o3)]\<rparr>) obs3
      else Went (v2\<lparr>runsecs10thresh := o_clock o3, trace := trace v2 @ [Clock (o_clock o3)]\<rparr>) obs3)
       = Went v4 (o5 # rest)" and
    v': "v' = manual_tune r o5 (if wait v4 \<noteq> 0 then v4\<lparr>wait := 0\<rparr> else v4)"
    by (elim scan_body_Went) auto
  let ?v3 = "v2\<lparr>runsecs10thresh := o_clock o3, trace := trace v2 @ [Clock (o_clock o3)]\<rparr>"
  have w2: "wait v2 = 1" using stop_loop_entered [OF st] e by simp
  have k2: "set (o3 # obs3) \<subseteq> set obs" using stop_loop_keys [OF st] e k by simp
  then have k3: "\<forall>ob \<in> set obs3. o_key ob = 0" using k by auto
  have "clock_reads (after_measure (trace ?v1)) = []" by (simp add: after_measure_snoc2)
  from stop_loop_no_clock [OF this, of r obs] have c2: "clock_reads (after_measure (trace v2)) = []"
    by (simp add: st)
  have c3: "clock_reads (after_measure (trace ?v3)) = [o_clock o3]"
    using c2 by (simp add: after_measure_snoc clock_reads_append)
  have wl: "wait_loop r ?v3 obs3 = Went v4 (o5 # rest)" using wt w2 by simp
  from wait_loop_no_key [OF wl k3] obtain cs where cs: "cs \<noteq> []"
    "clock_reads (after_measure (trace v4)) = clock_reads (after_measure (trace ?v3)) @ cs"
    "\<not> last cs <s runsecs10thresh ?v3 + 30"
    by blast
  have "clock_reads (after_measure (trace v')) = clock_reads (after_measure (trace v4))"
    by (simp add: v' manual_tune_trace after_measure_snoc clock_reads_append)
  then have 1: "clock_reads (after_measure (trace v')) = o_clock o3 # cs"
    using c3 by (simp add: cs(2))
  have 2: "\<not> last cs <s o_clock o3 + 30" using cs(3) by simp
  have 3: "sint (o_clock o3) \<le> 2147483617 \<longrightarrow> sint (o_clock o3) + 30 \<le> sint (last cs)"
    using dwell_elapsed [OF 2] by simp
  show ?thesis using 1 cs(1) 2 3 by blast
qed

lemma stop_loop_stays:
  "thresh r <s sval v \<Longrightarrow> key v = 0 \<Longrightarrow> \<forall>ob \<in> set obs. thresh r <s o_sval ob \<and> o_key ob = 0 \<Longrightarrow>
   \<exists>v'. stop_loop r v obs = Starved v' \<and> levels (trace v') = levels (trace v) @ map o_sval obs"
proof (induction obs arbitrary: v)
  case Nil
  then show ?case by simp
next
  case (Cons ob obs)
  let ?u = "manual_tune r ob (v\<lparr>sval := o_sval ob, key := o_key ob, wait := 1,
                trace := trace v @ [Measure (fx v) (o_sval ob)]\<rparr>)"
  have 1: "thresh r <s sval ?u" "key ?u = 0" using Cons.prems(3) by (simp_all add: manual_tune_fields)
  have 2: "\<forall>ob \<in> set obs. thresh r <s o_sval ob \<and> o_key ob = 0" using Cons.prems(3) by simp
  from Cons.IH [OF 1 2] obtain v' where v': "stop_loop r ?u obs = Starved v'"
    "levels (trace v') = levels (trace ?u) @ map o_sval obs" by blast
  have "levels (trace ?u) = levels (trace v) @ [o_sval ob]"
    by (simp add: manual_tune_trace levels_append)
  then show ?case using v' Cons.prems(1,2) by simp
qed

lemma scan_body_stays:
  assumes "thresh r <s o_sval o1" "o_key o1 = 0"
    and "\<forall>ob \<in> set obs. thresh r <s o_sval ob \<and> o_key ob = 0"
  shows "\<exists>v'. scan_body r v (o1 # obs) = Starved v' \<and>
              levels (trace v') = levels (trace v) @ map o_sval (o1 # obs)"
proof -
  let ?v1 = "v\<lparr>key := o_key o1, sval := o_sval o1,
        trace := trace v @ [Program (fx v + f_lo r (sideband r)), Measure (fx v) (o_sval o1)]\<rparr>"
  have "thresh r <s sval ?v1" "key ?v1 = 0" using assms(1,2) by simp_all
  from stop_loop_stays [OF this assms(3)] obtain v' where
    "stop_loop r ?v1 obs = Starved v'" "levels (trace v') = levels (trace ?v1) @ map o_sval obs"
    by blast
  then show ?thesis by (simp add: scan_body_def levels_append)
qed

lemma scan_f0_f1_stays:
  assumes "f_vfo r (cur_band r) 0 \<noteq> f_vfo r (cur_band r) 1"
    and "thresh r <s o_sval o1" "o_key o1 = 0"
    and "\<forall>ob \<in> set obs. thresh r <s o_sval ob \<and> o_key ob = 0"
  shows "\<exists>v'. scan_f0_f1 r wait0 (o1 # obs) = Pending v' \<and>
              levels (trace v') = map o_sval (o1 # obs)"
proof -
  let ?fa = "f_vfo r (cur_band r) 0" and ?fb = "f_vfo r (cur_band r) 1"
  let ?f0 = "if ?fb <s ?fa then ?fb else ?fa" and ?f1 = "if ?fb <s ?fa then ?fa else ?fb"
  let ?v = "\<lparr>fx = ?f0, key = 0, sval = 0, wait = wait0, runsecs10thresh = 0, trace = []\<rparr>"
  have lt: "?f0 <s ?f1"
    using assms(1) by (auto simp: word_sless_alt word_eq_iff_signed [where ?'a = int])
  from scan_body_stays [OF assms(2-4), of ?v] obtain v' where
    v': "scan_body r ?v (o1 # obs) = Starved v'" "levels (trace v') = map o_sval (o1 # obs)"
    by auto
  have "sweep r ?f0 ?f1 ?v (o1 # obs) = Pending v'"
    using lt v'(1) by (subst sweep.simps) simp
  then show ?thesis using v'(2) by (auto simp: scan_f0_f1_def Let_def)
qed

section \<open>The dual-VFO scan\<close>

lemma vmanual_tune_fields:
  "vsval (vmanual_tune ob c v) = vsval v"
  "thresh (vr (vmanual_tune ob c v)) = thresh (vr v)"
  "f_lo (vr (vmanual_tune ob c v)) = f_lo (vr v)"
  "sideband (vr (vmanual_tune ob c v)) = sideband (vr v)"
  by (simp_all add: vmanual_tune_def Let_def set_f_vfo_def)

lemma vmanual_tune_trace:
  "vtrace (vmanual_tune ob c v) =
     vtrace v @ (if tuned (vfo_f v) ob \<noteq> 0
                 then Program (tuned (vfo_f v) ob + f_lo (vr v) (sideband (vr v))) #
                      (case c of None \<Rightarrow> [] | Some x \<Rightarrow> [Clock x])
                 else [])"
  "vfo_f (vmanual_tune ob c v) = (if tuned (vfo_f v) ob \<noteq> 0 then tuned (vfo_f v) ob else vfo_f v)"
  "vthresh (vmanual_tune ob c v) =
     (if tuned (vfo_f v) ob \<noteq> 0 then (case c of None \<Rightarrow> vthresh v | Some x \<Rightarrow> x) else vthresh v)"
  by (simp_all add: vmanual_tune_def Let_def vfo_f_def set_f_vfo_def)

lemma vmanual_tune_inv:
  assumes "on_frequency lo None (vtrace v)" "dds_after None (vtrace v) = Some (vfo_f v + lo)"
    and "f_lo (vr v) (sideband (vr v)) = lo"
  shows "on_frequency lo None (vtrace (vmanual_tune ob c v))"
    "dds_after None (vtrace (vmanual_tune ob c v)) = Some (vfo_f (vmanual_tune ob c v) + lo)"
    "f_lo (vr (vmanual_tune ob c v)) (sideband (vr (vmanual_tune ob c v))) = lo"
  using assms
  by (simp_all add: vmanual_tune_trace vmanual_tune_fields on_frequency_append dds_after_append
      split: option.splits)

lemma vstop_loop_inv:
  "on_frequency lo None (vtrace v) \<Longrightarrow> dds_after None (vtrace v) = Some (vfo_f v + lo) \<Longrightarrow>
   f_lo (vr v) (sideband (vr v)) = lo \<Longrightarrow>
   on_frequency lo None (vtrace (state_of (vstop_loop v obs))) \<and>
   dds_after None (vtrace (state_of (vstop_loop v obs))) = Some (vfo_f (state_of (vstop_loop v obs)) + lo) \<and>
   f_lo (vr (state_of (vstop_loop v obs))) (sideband (vr (state_of (vstop_loop v obs)))) = lo"
proof (induction obs arbitrary: v)
  case Nil
  then show ?case by simp
next
  case (Cons ob rest)
  let ?v = "v\<lparr>vsval := o_sval ob, vkey := o_key ob,
                vtrace := vtrace v @ [Measure (vfo_f v) (o_sval ob)]\<rparr>"
  have 1: "on_frequency lo None (vtrace ?v)" "dds_after None (vtrace ?v) = Some (vfo_f ?v + lo)"
    "f_lo (vr ?v) (sideband (vr ?v)) = lo"
    using Cons.prems by (simp_all add: on_frequency_append dds_after_append vfo_f_def)
  note 2 = vmanual_tune_inv [OF 1, of ob "Some (o_clock ob)"]
  show ?case using Cons.IH [OF 2] Cons.prems by simp
qed

lemma vwait_loop_inv:
  "on_frequency lo None (vtrace v) \<Longrightarrow> dds_after None (vtrace v) = Some (vfo_f v + lo) \<Longrightarrow>
   f_lo (vr v) (sideband (vr v)) = lo \<Longrightarrow>
   on_frequency lo None (vtrace (state_of (vwait_loop v obs))) \<and>
   dds_after None (vtrace (state_of (vwait_loop v obs))) = Some (vfo_f (state_of (vwait_loop v obs)) + lo) \<and>
   f_lo (vr (state_of (vwait_loop v obs))) (sideband (vr (state_of (vwait_loop v obs)))) = lo"
proof (induction obs arbitrary: v)
  case Nil
  then show ?case by simp
next
  case (Cons ob rest)
  let ?v = "v\<lparr>vkey := o_key ob, vthresh := (if o_key ob \<noteq> 0 then 0 else vthresh v),
                vtrace := vtrace v @ [Clock (o_clock ob)]\<rparr>"
  have 1: "on_frequency lo None (vtrace ?v)" "dds_after None (vtrace ?v) = Some (vfo_f ?v + lo)"
    "f_lo (vr ?v) (sideband (vr ?v)) = lo"
    using Cons.prems by (simp_all add: on_frequency_append dds_after_append vfo_f_def)
  note 2 = vmanual_tune_inv [OF 1, of ob "Some (o_clock2 ob)"]
  show ?case using Cons.IH [OF 2] Cons.prems
    by (simp add: on_frequency_append dds_after_append vfo_f_def)
qed

lemma vscan_body_Went:
  assumes "vscan_body v obs = Went v' rest"
  obtains o1 obs1 v2 o3 obs3 v4 o5 where
    "obs = o1 # obs1"
    "vstop_loop (v\<lparr>vkey := o_key o1, vsval := o_sval o1,
        vtrace := vtrace v @ [Program (vfo_f v + f_lo (vr v) (sideband (vr v))),
                              Measure (vfo_f v) (o_sval o1)]\<rparr>) obs1
       = Went v2 (o3 # obs3)"
    "vwait_loop (v2\<lparr>vthresh := o_clock o3, vtrace := vtrace v2 @ [Clock (o_clock o3)]\<rparr>) obs3
       = Went v4 (o5 # rest)"
    "v' = vmanual_tune o5 None v4"
  using assms unfolding vscan_body_def
  by (auto split: list.splits step.splits)

lemma vscan_body_inv:
  assumes tr: "on_frequency lo None (vtrace v)" and lo: "f_lo (vr v) (sideband (vr v)) = lo"
  shows "on_frequency lo None (vtrace (state_of (vscan_body v obs))) \<and>
         f_lo (vr (state_of (vscan_body v obs))) (sideband (vr (state_of (vscan_body v obs)))) = lo"
proof (cases obs)
  case Nil
  then show ?thesis using tr lo by (simp add: vscan_body_def)
next
  case (Cons o1 obs1)
  let ?v1 = "v\<lparr>vkey := o_key o1, vsval := o_sval o1,
        vtrace := vtrace v @ [Program (vfo_f v + f_lo (vr v) (sideband (vr v))),
                              Measure (vfo_f v) (o_sval o1)]\<rparr>"
  have 1: "on_frequency lo None (vtrace ?v1)" "dds_after None (vtrace ?v1) = Some (vfo_f ?v1 + lo)"
    "f_lo (vr ?v1) (sideband (vr ?v1)) = lo"
    using tr lo by (simp_all add: on_frequency_append dds_after_append vfo_f_def)
  note s = vstop_loop_inv [OF 1, of obs1]
  show ?thesis
  proof (cases "vstop_loop ?v1 obs1")
    case (Starved v2)
    then show ?thesis using s Cons by (simp add: vscan_body_def)
  next
    case (Went v2 obs2)
    then have 2: "on_frequency lo None (vtrace v2)" "dds_after None (vtrace v2) = Some (vfo_f v2 + lo)"
      "f_lo (vr v2) (sideband (vr v2)) = lo"
      using s by simp_all
    show ?thesis
    proof (cases obs2)
      case Nil
      then show ?thesis using 2 Went Cons by (simp add: vscan_body_def)
    next
      case (Cons o3 obs3)
      let ?v3 = "v2\<lparr>vthresh := o_clock o3, vtrace := vtrace v2 @ [Clock (o_clock o3)]\<rparr>"
      have 3: "on_frequency lo None (vtrace ?v3)" "dds_after None (vtrace ?v3) = Some (vfo_f ?v3 + lo)"
        "f_lo (vr ?v3) (sideband (vr ?v3)) = lo"
        using 2 by (simp_all add: on_frequency_append dds_after_append vfo_f_def)
      note w = vwait_loop_inv [OF 3, of obs3]
      have b: "vscan_body v obs =
          (case vwait_loop ?v3 obs3 of Starved v4 \<Rightarrow> Starved v4 | Went v4 [] \<Rightarrow> Starved v4
           | Went v4 (o5 # obs5) \<Rightarrow> Went (vmanual_tune o5 None v4) obs5)"
        using \<open>obs = o1 # obs1\<close> Went Cons by (simp add: vscan_body_def)
      show ?thesis
      proof (cases "vwait_loop ?v3 obs3")
        case (Starved v4)
        then show ?thesis using w b by simp
      next
        case (Went v4 obs4)
        then have 4: "on_frequency lo None (vtrace v4)" "dds_after None (vtrace v4) = Some (vfo_f v4 + lo)"
          "f_lo (vr v4) (sideband (vr v4)) = lo"
          using w by simp_all
        show ?thesis
        proof (cases obs4)
          case Nil
          then show ?thesis using 4 Went b by simp
        next
          case (Cons o5 obs5)
          from vmanual_tune_inv(1,3) [OF 4, of o5 None] show ?thesis
            using Went Cons b by simp
        qed
      qed
    qed
  qed
qed

lemma valternate_inv:
  "on_frequency lo None (vtrace v) \<Longrightarrow> f_lo (vr v) (sideband (vr v)) = lo \<Longrightarrow>
   on_frequency lo None (vtrace (vars_of (valternate v obs)))"
proof (induction v obs rule: valternate.induct)
  case (1 v obs)
  note tr = "1.prems"(1) and lo = "1.prems"(2)
  note unf = valternate.simps [of v obs]
  show ?case
  proof (cases "t1 v <s 2")
    case True
    note b = vscan_body_inv [OF tr lo, of obs]
    show ?thesis
    proof (cases "vscan_body v obs")
      case (Starved v')
      then show ?thesis using True b by (simp add: unf)
    next
      case (Went v' obs')
      then have t: "on_frequency lo None (vtrace v')" "f_lo (vr v') (sideband (vr v')) = lo"
        using b by simp_all
      show ?thesis
      proof (cases "vkey v' = 2 \<or> vkey v' = 3")
        case True
        then show ?thesis using \<open>t1 v <s 2\<close> Went t by (auto simp: unf)
      next
        case False
        then have k: "vkey v' \<noteq> 2" "vkey v' \<noteq> 3" by simp_all
        have "on_frequency lo None (vtrace (v'\<lparr>vkey := 0, t1 := t1 v' + 1\<rparr>))"
          "f_lo (vr (v'\<lparr>vkey := 0, t1 := t1 v' + 1\<rparr>)) (sideband (vr (v'\<lparr>vkey := 0, t1 := t1 v' + 1\<rparr>))) = lo"
          using t by simp_all
        from "1.IH"(1) [OF True Went k this] show ?thesis
          using True Went k by (simp add: unf)
      qed
    qed
  next
    case False
    show ?thesis
    proof (cases "vkey v = 2")
      case True
      then show ?thesis using False tr by (simp add: unf)
    next
      case k: False
      have "on_frequency lo None (vtrace (v\<lparr>t1 := 0\<rparr>))"
        "f_lo (vr (v\<lparr>t1 := 0\<rparr>)) (sideband (vr (v\<lparr>t1 := 0\<rparr>))) = lo"
        using tr lo by simp_all
      from "1.IH"(2) [OF False k this] show ?thesis
        using False k by (simp add: unf)
    qed
  qed
qed

lemma scan_vfoa_vfob_on_frequency:
  "on_frequency (f_lo r (sideband r)) None (vtrace (vars_of (scan_vfoa_vfob r obs)))"
  unfolding scan_vfoa_vfob_def
  by (rule valternate_inv) simp_all


lemma vfo_f_update:
  "vfo_f (v\<lparr>vkey := k\<rparr>) = vfo_f v" "vfo_f (v\<lparr>vsval := x\<rparr>) = vfo_f v"
  "vfo_f (v\<lparr>vthresh := c\<rparr>) = vfo_f v" "vfo_f (v\<lparr>vtrace := es\<rparr>) = vfo_f v"
  by (simp_all add: vfo_f_def)

lemma vstop_loop_exit:
  "vstop_loop v obs = Went v' rest \<Longrightarrow> \<not> (thresh (vr v') <s vsval v' \<and> vkey v' = 0)"
  by (induction obs arbitrary: v) (auto split: if_splits)

lemma vstop_loop_subset:
  "vstop_loop v obs = Went v' rest \<Longrightarrow> set rest \<subseteq> set obs"
proof (induction obs arbitrary: v)
  case Nil
  then show ?case by (simp split: if_splits)
next
  case (Cons ob obs)
  show ?case
  proof (cases "thresh (vr v) <s vsval v \<and> vkey v = 0")
    case True
    then have "vstop_loop (vmanual_tune ob (Some (o_clock ob))
                (v\<lparr>vsval := o_sval ob, vkey := o_key ob,
                   vtrace := vtrace v @ [Measure (vfo_f v) (o_sval ob)]\<rparr>)) obs = Went v' rest"
      using Cons.prems by simp
    from Cons.IH [OF this] show ?thesis by auto
  next
    case False
    then show ?thesis using Cons.prems by auto
  qed
qed

lemma vstop_loop_stays:
  "thresh (vr v) <s vsval v \<Longrightarrow> vkey v = 0 \<Longrightarrow>
   \<forall>ob \<in> set obs. thresh (vr v) <s o_sval ob \<and> o_key ob = 0 \<Longrightarrow>
   \<exists>v'. vstop_loop v obs = Starved v' \<and> levels (vtrace v') = levels (vtrace v) @ map o_sval obs"
proof (induction obs arbitrary: v)
  case Nil
  then show ?case by simp
next
  case (Cons ob obs)
  let ?u = "vmanual_tune ob (Some (o_clock ob))
                (v\<lparr>vsval := o_sval ob, vkey := o_key ob,
                   vtrace := vtrace v @ [Measure (vfo_f v) (o_sval ob)]\<rparr>)"
  have 1: "thresh (vr ?u) <s vsval ?u" "vkey ?u = 0"
    using Cons.prems(3) by (simp_all add: vmanual_tune_fields vmanual_tune_keeps)
  have 2: "\<forall>ob \<in> set obs. thresh (vr ?u) <s o_sval ob \<and> o_key ob = 0"
    using Cons.prems(3) by (simp add: vmanual_tune_fields)
  from Cons.IH [OF 1 2] obtain v' where v': "vstop_loop ?u obs = Starved v'"
    "levels (vtrace v') = levels (vtrace ?u) @ map o_sval obs" by blast
  have "levels (vtrace ?u) = levels (vtrace v) @ [o_sval ob]"
    by (simp add: vmanual_tune_trace levels_append)
  then show ?case using v' Cons.prems(1,2) by simp
qed

lemma vwait_loop_no_key:
  "vwait_loop v obs = Went v' rest \<Longrightarrow> \<forall>ob \<in> set obs. o_key ob = 0 \<Longrightarrow>
   (\<exists>cs. cs \<noteq> [] \<and>
         clock_reads (after_measure (vtrace v')) = clock_reads (after_measure (vtrace v)) @ cs \<and>
         \<not> last cs <s vthresh v' + 30 \<and>
         (vthresh v' = vthresh v \<or> vthresh v' \<in> set (butlast cs)))"
proof (induction obs arbitrary: v)
  case Nil
  then show ?case by simp
next
  case (Cons ob obs)
  show ?case
  proof (cases "o_clock ob <s vthresh v + 30")
    case True
    let ?w = "v\<lparr>vkey := o_key ob, vthresh := (if o_key ob \<noteq> 0 then 0 else vthresh v),
                 vtrace := vtrace v @ [Clock (o_clock ob)]\<rparr>"
    let ?u = "vmanual_tune ob (Some (o_clock2 ob)) ?w"
    let ?new = "o_clock ob # (if tuned (vfo_f v) ob \<noteq> 0 then [o_clock2 ob] else [])"
    have k: "o_key ob = 0" using Cons.prems(2) by simp
    have s: "vwait_loop ?u obs = Went v' rest" using Cons.prems(1) True by simp
    have a: "\<forall>ob \<in> set obs. o_key ob = 0" using Cons.prems(2) by simp
    from Cons.IH [OF s a] obtain cs where cs: "cs \<noteq> []"
      "clock_reads (after_measure (vtrace v')) = clock_reads (after_measure (vtrace ?u)) @ cs"
      "\<not> last cs <s vthresh v' + 30"
      "vthresh v' = vthresh ?u \<or> vthresh v' \<in> set (butlast cs)"
      by blast
    have f: "vfo_f ?w = vfo_f v" by (simp add: vfo_f_def)
    have u: "clock_reads (after_measure (vtrace ?u)) = clock_reads (after_measure (vtrace v)) @ ?new"
      by (simp add: vmanual_tune_trace vfo_f_update after_measure_snoc after_measure_append
          clock_reads_append)
    have th: "vthresh ?u = vthresh v \<or> vthresh ?u \<in> set ?new"
      using k by (simp add: vmanual_tune_trace vfo_f_update)
    have 1: "clock_reads (after_measure (vtrace v')) =
          clock_reads (after_measure (vtrace v)) @ (?new @ cs)"
      by (simp only: cs(2) u append_assoc)
    have 2: "\<not> last (?new @ cs) <s vthresh v' + 30" using cs(1,3) by simp
    have 3: "vthresh v' = vthresh v \<or> vthresh v' \<in> set (butlast (?new @ cs))"
      using cs(1,4) th by (auto simp: butlast_append)
    have 4: "?new @ cs \<noteq> []" by simp
    show ?thesis using 1 2 3 4 by blast
  next
    case False
    then have v': "v' = v\<lparr>vtrace := vtrace v @ [Clock (o_clock ob)]\<rparr>" "rest = obs"
      using Cons.prems(1) by simp_all
    have "clock_reads (after_measure (vtrace v')) = clock_reads (after_measure (vtrace v)) @ [o_clock ob]"
      by (simp add: v' after_measure_snoc clock_reads_append)
    moreover have "\<not> last [o_clock ob] <s vthresh v' + 30" using False v' by simp
    moreover have "vthresh v' = vthresh v" using v' by simp
    ultimately show ?thesis by blast
  qed
qed


lemma vscan_body_dwell:
  assumes b: "vscan_body v (o1 # obs) = Went v' rest"
    and k: "\<forall>ob \<in> set obs. o_key ob = 0"
  shows "\<exists>c \<in> set (butlast (clock_reads (after_measure (vtrace v')))).
           \<not> last (clock_reads (after_measure (vtrace v'))) <s c + 30 \<and>
           (sint c \<le> 2147483617 \<longrightarrow>
              sint c + 30 \<le> sint (last (clock_reads (after_measure (vtrace v')))))"
proof -
  let ?v1 = "v\<lparr>vkey := o_key o1, vsval := o_sval o1,
        vtrace := vtrace v @ [Program (vfo_f v + f_lo (vr v) (sideband (vr v))),
                              Measure (vfo_f v) (o_sval o1)]\<rparr>"
  from b obtain v2 o3 obs3 v4 o5 where
    st: "vstop_loop ?v1 obs = Went v2 (o3 # obs3)" and
    wt: "vwait_loop (v2\<lparr>vthresh := o_clock o3, vtrace := vtrace v2 @ [Clock (o_clock o3)]\<rparr>) obs3
       = Went v4 (o5 # rest)" and
    v': "v' = vmanual_tune o5 None v4"
    by (elim vscan_body_Went) auto
  let ?v3 = "v2\<lparr>vthresh := o_clock o3, vtrace := vtrace v2 @ [Clock (o_clock o3)]\<rparr>"
  let ?pre = "clock_reads (after_measure (vtrace v2))"
  have "set (o3 # obs3) \<subseteq> set obs" using vstop_loop_subset [OF st] .
  then have k3: "\<forall>ob \<in> set obs3. o_key ob = 0" using k by auto
  have c3: "clock_reads (after_measure (vtrace ?v3)) = ?pre @ [o_clock o3]"
    by (simp add: after_measure_snoc clock_reads_append)
  from vwait_loop_no_key [OF wt k3] obtain cs where cs: "cs \<noteq> []"
    "clock_reads (after_measure (vtrace v4)) = clock_reads (after_measure (vtrace ?v3)) @ cs"
    "\<not> last cs <s vthresh v4 + 30"
    "vthresh v4 = vthresh ?v3 \<or> vthresh v4 \<in> set (butlast cs)"
    by blast
  have "clock_reads (after_measure (vtrace v')) = clock_reads (after_measure (vtrace v4))"
    by (simp add: v' vmanual_tune_trace after_measure_snoc clock_reads_append)
  then have all: "clock_reads (after_measure (vtrace v')) = ?pre @ o_clock o3 # cs"
    using c3 by (simp add: cs(2))
  have l: "last (?pre @ o_clock o3 # cs) = last cs" using cs(1) by simp
  have bl: "butlast (?pre @ o_clock o3 # cs) = ?pre @ o_clock o3 # butlast cs"
    using cs(1) by (simp add: butlast_append)
  have m: "vthresh v4 \<in> set (butlast (?pre @ o_clock o3 # cs))"
    using cs(4) by (auto simp: bl)
  have e: "\<not> last (?pre @ o_clock o3 # cs) <s vthresh v4 + 30" unfolding l using cs(3) .
  have "sint (vthresh v4) \<le> 2147483617 \<longrightarrow>
        sint (vthresh v4) + 30 \<le> sint (last (?pre @ o_clock o3 # cs))"
    using dwell_elapsed [OF e] by simp
  with m e show ?thesis unfolding all by blast
qed

lemma vscan_body_stays:
  assumes "thresh (vr v) <s o_sval o1" "o_key o1 = 0"
    and "\<forall>ob \<in> set obs. thresh (vr v) <s o_sval ob \<and> o_key ob = 0"
  shows "\<exists>v'. vscan_body v (o1 # obs) = Starved v' \<and>
              levels (vtrace v') = levels (vtrace v) @ map o_sval (o1 # obs)"
proof -
  let ?v1 = "v\<lparr>vkey := o_key o1, vsval := o_sval o1,
        vtrace := vtrace v @ [Program (vfo_f v + f_lo (vr v) (sideband (vr v))),
                              Measure (vfo_f v) (o_sval o1)]\<rparr>"
  have "thresh (vr ?v1) <s vsval ?v1" "vkey ?v1 = 0"
    "\<forall>ob \<in> set obs. thresh (vr ?v1) <s o_sval ob \<and> o_key ob = 0"
    using assms by simp_all
  from vstop_loop_stays [OF this] obtain v' where
    "vstop_loop ?v1 obs = Starved v'" "levels (vtrace v') = levels (vtrace ?v1) @ map o_sval obs"
    by blast
  then show ?thesis by (simp add: vscan_body_def levels_append)
qed

lemma scan_vfoa_vfob_stays:
  assumes "thresh r <s o_sval o1" "o_key o1 = 0"
    and "\<forall>ob \<in> set obs. thresh r <s o_sval ob \<and> o_key ob = 0"
  shows "\<exists>v'. scan_vfoa_vfob r (o1 # obs) = Pending v' \<and>
              levels (vtrace v') = map o_sval (o1 # obs)"
proof -
  let ?v = "\<lparr>vr = r, t1 = 0, vkey = 0, vsval = 0, vthresh = 0, vtrace = []\<rparr>"
  have "thresh (vr ?v) <s o_sval o1" "o_key o1 = 0"
    "\<forall>ob \<in> set obs. thresh (vr ?v) <s o_sval ob \<and> o_key ob = 0"
    using assms by simp_all
  from vscan_body_stays [OF this] obtain v' where
    v': "vscan_body ?v (o1 # obs) = Starved v'" "levels (vtrace v') = map o_sval (o1 # obs)"
    by auto
  have "valternate ?v (o1 # obs) = Pending v'"
    using v'(1) by (subst valternate.simps) (simp add: word_sless_alt)
  then show ?thesis using v'(2) by (auto simp: scan_vfoa_vfob_def)
qed

section \<open>Tuning and keys inside the stop and the dwell\<close>

text \<open>
  One round of each loop, and what a run of a loop adds to the trace. With the knob at rest
  \<open>tune_frequency\<close> returns 0 and the manual tuning block does nothing.
\<close>

lemma tuned_at_rest: "o_knob ob = 0 \<Longrightarrow> tuned f ob = 0"
  by (simp add: tuned_def tune_frequency_def word_sless_alt)

lemma stop_loop_step:
  "thresh r <s sval v \<Longrightarrow> key v = 0 \<Longrightarrow>
   stop_loop r v (ob # obs) =
     stop_loop r (manual_tune r ob (v\<lparr>sval := o_sval ob, key := o_key ob, wait := 1,
                    trace := trace v @ [Measure (fx v) (o_sval ob)]\<rparr>)) obs"
  by simp

lemma stop_loop_done:
  "\<not> (thresh r <s sval v \<and> key v = 0) \<Longrightarrow> stop_loop r v obs = Went v obs"
  by (cases obs) auto

lemma wait_loop_step:
  "o_clock ob <s runsecs10thresh v + 30 \<Longrightarrow>
   wait_loop r v (ob # obs) =
     wait_loop r (manual_tune r ob (v\<lparr>key := o_key ob,
                   runsecs10thresh := (if o_key ob \<noteq> 0 then 0 else runsecs10thresh v),
                   trace := trace v @ [Clock (o_clock ob)]\<rparr>)) obs"
  by simp

lemma wait_loop_done:
  "\<not> o_clock ob <s runsecs10thresh v + 30 \<Longrightarrow>
   wait_loop r v (ob # obs) = Went (v\<lparr>trace := trace v @ [Clock (o_clock ob)]\<rparr>) obs"
  by simp

lemma stop_loop_grows: "\<exists>es. trace (state_of (stop_loop r v obs)) = trace v @ es"
proof (induction obs arbitrary: v)
  case Nil
  show ?case by simp
next
  case (Cons ob obs)
  show ?case
  proof (cases "thresh r <s sval v \<and> key v = 0")
    case True
    let ?u = "manual_tune r ob (v\<lparr>sval := o_sval ob, key := o_key ob, wait := 1,
                trace := trace v @ [Measure (fx v) (o_sval ob)]\<rparr>)"
    from Cons.IH [of ?u] obtain es where es: "trace (state_of (stop_loop r ?u obs)) = trace ?u @ es"
      by blast
    obtain es' where es': "trace ?u = trace v @ es'" by (simp add: manual_tune_trace)
    have "trace (state_of (stop_loop r v (ob # obs))) = trace v @ (es' @ es)"
      using True by (simp only: stop_loop_step es es' append_assoc)
    then show ?thesis by blast
  next
    case False
    show ?thesis by (simp only: stop_loop_done [OF False] state_of.simps) simp
  qed
qed

lemma stop_loop_tunes:
  assumes "thresh r <s sval v" "key v = 0" "tuned (fx v) o1 \<noteq> 0"
    and "thresh r <s o_sval o1" "o_key o1 = 0"
  shows "\<exists>es. trace (state_of (stop_loop r v (o1 # o2 # obs))) =
           trace v @ [Measure (fx v) (o_sval o1), Program (tuned (fx v) o1 + f_lo r (sideband r)),
                      Measure (tuned (fx v) o1) (o_sval o2)] @ es"
proof -
  let ?u = "manual_tune r o1 (v\<lparr>sval := o_sval o1, key := o_key o1, wait := 1,
                trace := trace v @ [Measure (fx v) (o_sval o1)]\<rparr>)"
  let ?w = "manual_tune r o2 (?u\<lparr>sval := o_sval o2, key := o_key o2, wait := 1,
                trace := trace ?u @ [Measure (fx ?u) (o_sval o2)]\<rparr>)"
  have u: "fx ?u = tuned (fx v) o1" "thresh r <s sval ?u" "key ?u = 0"
    "trace ?u = trace v @ [Measure (fx v) (o_sval o1), Program (tuned (fx v) o1 + f_lo r (sideband r))]"
    using assms by (simp_all add: manual_tune_trace manual_tune_fields)
  have 1: "stop_loop r v (o1 # o2 # obs) = stop_loop r ?w obs"
    by (simp only: stop_loop_step [OF assms(1,2)] stop_loop_step [OF u(2,3)])
  obtain es where es: "trace (state_of (stop_loop r ?w obs)) = trace ?w @ es"
    using stop_loop_grows by blast
  obtain es' where es': "trace ?w = (trace ?u @ [Measure (fx ?u) (o_sval o2)]) @ es'"
    by (simp add: manual_tune_trace)
  have "trace (state_of (stop_loop r v (o1 # o2 # obs))) = trace ?w @ es"
    by (simp only: 1 es)
  also have "\<dots> = (trace ?u @ [Measure (fx ?u) (o_sval o2)]) @ (es' @ es)"
    by (simp only: es' append_assoc)
  also have "\<dots> = trace v @ [Measure (fx v) (o_sval o1), Program (tuned (fx v) o1 + f_lo r (sideband r)),
                      Measure (tuned (fx v) o1) (o_sval o2)] @ (es' @ es)"
    by (simp only: u(1) u(4)) simp
  finally show ?thesis by blast
qed

lemma stop_loop_key:
  assumes "thresh r <s sval v" "key v = 0" "o_key o1 \<noteq> 0"
  shows "went (stop_loop r v (o1 # obs))" "key (state_of (stop_loop r v (o1 # obs))) = o_key o1"
    "levels (trace (state_of (stop_loop r v (o1 # obs)))) = levels (trace v) @ [o_sval o1]"
proof -
  let ?u = "manual_tune r o1 (v\<lparr>sval := o_sval o1, key := o_key o1, wait := 1,
                trace := trace v @ [Measure (fx v) (o_sval o1)]\<rparr>)"
  have k: "key ?u = o_key o1" by (simp add: manual_tune_fields)
  then have n: "\<not> (thresh r <s sval ?u \<and> key ?u = 0)" using assms(3) by simp
  have e: "stop_loop r v (o1 # obs) = Went ?u obs"
    by (simp only: stop_loop_step [OF assms(1,2)] stop_loop_done [OF n])
  show "went (stop_loop r v (o1 # obs))" by (simp only: e went.simps)
  show "key (state_of (stop_loop r v (o1 # obs))) = o_key o1" by (simp only: e state_of.simps k)
  show "levels (trace (state_of (stop_loop r v (o1 # obs)))) = levels (trace v) @ [o_sval o1]"
    by (simp only: e state_of.simps) (simp add: manual_tune_trace levels_append)
qed

lemma wait_loop_grows: "\<exists>es. trace (state_of (wait_loop r v obs)) = trace v @ es"
proof (induction obs arbitrary: v)
  case Nil
  show ?case by simp
next
  case (Cons ob obs)
  show ?case
  proof (cases "o_clock ob <s runsecs10thresh v + 30")
    case True
    let ?u = "manual_tune r ob (v\<lparr>key := o_key ob,
                   runsecs10thresh := (if o_key ob \<noteq> 0 then 0 else runsecs10thresh v),
                   trace := trace v @ [Clock (o_clock ob)]\<rparr>)"
    from Cons.IH [of ?u] obtain es where es: "trace (state_of (wait_loop r ?u obs)) = trace ?u @ es"
      by blast
    obtain es' where es': "trace ?u = trace v @ es'" by (simp add: manual_tune_trace)
    have "trace (state_of (wait_loop r v (ob # obs))) = trace v @ (es' @ es)"
      by (simp only: wait_loop_step [OF True] es es' append_assoc)
    then show ?thesis by blast
  next
    case False
    show ?thesis by (simp only: wait_loop_done [OF False] state_of.simps) simp
  qed
qed

lemma wait_loop_at_rest:
  "\<forall>ob \<in> set obs. o_knob ob = 0 \<Longrightarrow> fx (state_of (wait_loop r v obs)) = fx v"
proof (induction obs arbitrary: v)
  case Nil
  show ?case by simp
next
  case (Cons ob obs)
  then have t: "tuned f ob = 0" for f by (simp add: tuned_at_rest)
  have r: "\<forall>ob \<in> set obs. o_knob ob = 0" using Cons.prems by simp
  show ?case
  proof (cases "o_clock ob <s runsecs10thresh v + 30")
    case True
    show ?thesis
      by (simp only: wait_loop_step [OF True] Cons.IH [OF r]) (simp add: manual_tune_def t)
  next
    case False
    show ?thesis by (simp only: wait_loop_done [OF False] state_of.simps) simp
  qed
qed

lemma wait_loop_tunes:
  assumes "o_clock o1 <s runsecs10thresh v + 30" "tuned (fx v) o1 \<noteq> 0"
  shows "\<exists>es. trace (state_of (wait_loop r v (o1 # obs))) =
           trace v @ [Clock (o_clock o1), Program (tuned (fx v) o1 + f_lo r (sideband r))] @ es"
    and "\<forall>ob \<in> set obs. o_knob ob = 0 \<Longrightarrow>
           fx (state_of (wait_loop r v (o1 # obs))) = tuned (fx v) o1"
proof -
  let ?u = "manual_tune r o1 (v\<lparr>key := o_key o1,
                   runsecs10thresh := (if o_key o1 \<noteq> 0 then 0 else runsecs10thresh v),
                   trace := trace v @ [Clock (o_clock o1)]\<rparr>)"
  have u: "fx ?u = tuned (fx v) o1"
    "trace ?u = trace v @ [Clock (o_clock o1), Program (tuned (fx v) o1 + f_lo r (sideband r))]"
    using assms by (simp_all add: manual_tune_trace)
  note 1 = wait_loop_step [OF assms(1), of r obs]
  obtain es where es: "trace (state_of (wait_loop r ?u obs)) = trace ?u @ es"
    using wait_loop_grows by blast
  have "trace (state_of (wait_loop r v (o1 # obs))) =
           trace v @ [Clock (o_clock o1), Program (tuned (fx v) o1 + f_lo r (sideband r))] @ es"
    by (simp only: 1 es u(2) append_assoc)
  then show "\<exists>es. trace (state_of (wait_loop r v (o1 # obs))) =
           trace v @ [Clock (o_clock o1), Program (tuned (fx v) o1 + f_lo r (sideband r))] @ es"
    by blast
  show "fx (state_of (wait_loop r v (o1 # obs))) = tuned (fx v) o1"
    if "\<forall>ob \<in> set obs. o_knob ob = 0"
    by (simp only: 1 wait_loop_at_rest [OF that] u(1))
qed

lemma wait_loop_key:
  assumes "o_clock o1 <s runsecs10thresh v + 30" "o_key o1 \<noteq> 0"
  shows "\<not> o_clock o2 <s 30 \<Longrightarrow> went (wait_loop r v (o1 # o2 # obs))"
    and "\<not> o_clock o2 <s 30 \<Longrightarrow> key (state_of (wait_loop r v (o1 # o2 # obs))) = o_key o1"
    and "\<not> o_clock o2 <s 30 \<Longrightarrow>
           clock_reads (trace (state_of (wait_loop r v (o1 # o2 # obs)))) =
             clock_reads (trace v) @ [o_clock o1, o_clock o2]"
    and "o_clock o2 <s 30 \<Longrightarrow> \<not> went (wait_loop r v [o1, o2])"
proof -
  let ?u = "manual_tune r o1 (v\<lparr>key := o_key o1,
                   runsecs10thresh := (if o_key o1 \<noteq> 0 then 0 else runsecs10thresh v),
                   trace := trace v @ [Clock (o_clock o1)]\<rparr>)"
  have u: "key ?u = o_key o1" "runsecs10thresh ?u = 0"
    "clock_reads (trace ?u) = clock_reads (trace v) @ [o_clock o1]"
    using assms by (simp_all add: manual_tune_fields manual_tune_trace clock_reads_append)
  note 1 = wait_loop_step [OF assms(1), of r]
  {
    assume c: "\<not> o_clock o2 <s 30"
    then have n: "\<not> o_clock o2 <s runsecs10thresh ?u + 30" by (simp only: u(2)) simp
    have e: "wait_loop r v (o1 # o2 # obs) = Went (?u\<lparr>trace := trace ?u @ [Clock (o_clock o2)]\<rparr>) obs"
      by (simp only: 1 wait_loop_done [OF n])
    show "went (wait_loop r v (o1 # o2 # obs))" by (simp only: e went.simps)
    show "key (state_of (wait_loop r v (o1 # o2 # obs))) = o_key o1"
      using u(1) by (simp only: e state_of.simps) simp
    show "clock_reads (trace (state_of (wait_loop r v (o1 # o2 # obs)))) =
             clock_reads (trace v) @ [o_clock o1, o_clock o2]"
      using u(3) by (simp only: e state_of.simps) (simp add: clock_reads_append)
  }
  {
    assume c: "o_clock o2 <s 30"
    then have c': "o_clock o2 <s runsecs10thresh ?u + 30" by (simp only: u(2)) simp
    have "wait_loop r v [o1, o2] = wait_loop r ?u [o2]" by (rule 1)
    also have "\<dots> = wait_loop r (manual_tune r o2 (?u\<lparr>key := o_key o2,
                   runsecs10thresh := (if o_key o2 \<noteq> 0 then 0 else runsecs10thresh ?u),
                   trace := trace ?u @ [Clock (o_clock o2)]\<rparr>)) []"
      by (rule wait_loop_step [OF c'])
    finally show "\<not> went (wait_loop r v [o1, o2])"
      by (simp only: wait_loop.simps went.simps) simp
  }
qed

lemma vstop_loop_step:
  "thresh (vr v) <s vsval v \<Longrightarrow> vkey v = 0 \<Longrightarrow>
   vstop_loop v (ob # obs) =
     vstop_loop (vmanual_tune ob (Some (o_clock ob))
                   (v\<lparr>vsval := o_sval ob, vkey := o_key ob,
                      vtrace := vtrace v @ [Measure (vfo_f v) (o_sval ob)]\<rparr>)) obs"
  by simp

lemma vstop_loop_done:
  "\<not> (thresh (vr v) <s vsval v \<and> vkey v = 0) \<Longrightarrow> vstop_loop v obs = Went v obs"
  by (cases obs) auto

lemma vwait_loop_step:
  "o_clock ob <s vthresh v + 30 \<Longrightarrow>
   vwait_loop v (ob # obs) =
     vwait_loop (vmanual_tune ob (Some (o_clock2 ob))
                   (v\<lparr>vkey := o_key ob,
                      vthresh := (if o_key ob \<noteq> 0 then 0 else vthresh v),
                      vtrace := vtrace v @ [Clock (o_clock ob)]\<rparr>)) obs"
  by simp

lemma vwait_loop_done:
  "\<not> o_clock ob <s vthresh v + 30 \<Longrightarrow>
   vwait_loop v (ob # obs) = Went (v\<lparr>vtrace := vtrace v @ [Clock (o_clock ob)]\<rparr>) obs"
  by simp

lemma vmanual_tune_grows: "\<exists>es. vtrace (vmanual_tune ob c v) = vtrace v @ es"
  by (simp add: vmanual_tune_trace)

lemma vstop_loop_grows: "\<exists>es. vtrace (state_of (vstop_loop v obs)) = vtrace v @ es"
proof (induction obs arbitrary: v)
  case Nil
  show ?case by simp
next
  case (Cons ob obs)
  show ?case
  proof (cases "thresh (vr v) <s vsval v \<and> vkey v = 0")
    case True
    let ?u = "vmanual_tune ob (Some (o_clock ob))
                   (v\<lparr>vsval := o_sval ob, vkey := o_key ob,
                      vtrace := vtrace v @ [Measure (vfo_f v) (o_sval ob)]\<rparr>)"
    from Cons.IH [of ?u] obtain es where es: "vtrace (state_of (vstop_loop ?u obs)) = vtrace ?u @ es"
      by blast
    obtain es' where es': "vtrace ?u = vtrace v @ es'"
      using vmanual_tune_grows [of ob "Some (o_clock ob)" "v\<lparr>vsval := o_sval ob, vkey := o_key ob,
                      vtrace := vtrace v @ [Measure (vfo_f v) (o_sval ob)]\<rparr>"] by auto
    have "vtrace (state_of (vstop_loop v (ob # obs))) = vtrace v @ (es' @ es)"
      using True by (simp only: vstop_loop_step es es' append_assoc)
    then show ?thesis by blast
  next
    case False
    show ?thesis by (simp only: vstop_loop_done [OF False] state_of.simps) simp
  qed
qed

lemma vwait_loop_grows: "\<exists>es. vtrace (state_of (vwait_loop v obs)) = vtrace v @ es"
proof (induction obs arbitrary: v)
  case Nil
  show ?case by simp
next
  case (Cons ob obs)
  show ?case
  proof (cases "o_clock ob <s vthresh v + 30")
    case True
    let ?u = "vmanual_tune ob (Some (o_clock2 ob))
                   (v\<lparr>vkey := o_key ob,
                      vthresh := (if o_key ob \<noteq> 0 then 0 else vthresh v),
                      vtrace := vtrace v @ [Clock (o_clock ob)]\<rparr>)"
    from Cons.IH [of ?u] obtain es where es: "vtrace (state_of (vwait_loop ?u obs)) = vtrace ?u @ es"
      by blast
    obtain es' where es': "vtrace ?u = vtrace v @ es'"
      using vmanual_tune_grows [of ob "Some (o_clock2 ob)" "v\<lparr>vkey := o_key ob,
                      vthresh := (if o_key ob \<noteq> 0 then 0 else vthresh v),
                      vtrace := vtrace v @ [Clock (o_clock ob)]\<rparr>"] by auto
    have "vtrace (state_of (vwait_loop v (ob # obs))) = vtrace v @ (es' @ es)"
      by (simp only: vwait_loop_step [OF True] es es' append_assoc)
    then show ?thesis by blast
  next
    case False
    show ?thesis by (simp only: vwait_loop_done [OF False] state_of.simps) simp
  qed
qed

lemma vstop_loop_tunes:
  assumes "thresh (vr v) <s vsval v" "vkey v = 0" "tuned (vfo_f v) o1 \<noteq> 0"
    and "thresh (vr v) <s o_sval o1" "o_key o1 = 0"
  shows "\<exists>es. vtrace (state_of (vstop_loop v (o1 # o2 # obs))) =
           vtrace v @ [Measure (vfo_f v) (o_sval o1),
                       Program (tuned (vfo_f v) o1 + f_lo (vr v) (sideband (vr v))),
                       Clock (o_clock o1),
                       Measure (tuned (vfo_f v) o1) (o_sval o2)] @ es"
proof -
  let ?u = "vmanual_tune o1 (Some (o_clock o1))
                   (v\<lparr>vsval := o_sval o1, vkey := o_key o1,
                      vtrace := vtrace v @ [Measure (vfo_f v) (o_sval o1)]\<rparr>)"
  let ?w = "vmanual_tune o2 (Some (o_clock o2))
                   (?u\<lparr>vsval := o_sval o2, vkey := o_key o2,
                      vtrace := vtrace ?u @ [Measure (vfo_f ?u) (o_sval o2)]\<rparr>)"
  have u: "vfo_f ?u = tuned (vfo_f v) o1" "thresh (vr ?u) <s vsval ?u" "vkey ?u = 0"
    "vtrace ?u = vtrace v @ [Measure (vfo_f v) (o_sval o1),
                       Program (tuned (vfo_f v) o1 + f_lo (vr v) (sideband (vr v))),
                       Clock (o_clock o1)]"
    using assms by (simp_all add: vmanual_tune_trace vmanual_tune_fields vfo_f_update)
      (simp_all add: vmanual_tune_def vfo_f_update Let_def)
  have 1: "vstop_loop v (o1 # o2 # obs) = vstop_loop ?w obs"
    by (simp only: vstop_loop_step [OF assms(1,2)] vstop_loop_step [OF u(2,3)])
  obtain es where es: "vtrace (state_of (vstop_loop ?w obs)) = vtrace ?w @ es"
    using vstop_loop_grows by blast
  obtain es' where es': "vtrace ?w = (vtrace ?u @ [Measure (vfo_f ?u) (o_sval o2)]) @ es'"
    using vmanual_tune_grows [of o2 "Some (o_clock o2)" "?u\<lparr>vsval := o_sval o2, vkey := o_key o2,
                      vtrace := vtrace ?u @ [Measure (vfo_f ?u) (o_sval o2)]\<rparr>"] by auto
  have "vtrace (state_of (vstop_loop v (o1 # o2 # obs))) = vtrace ?w @ es"
    by (simp only: 1 es)
  also have "\<dots> = (vtrace ?u @ [Measure (vfo_f ?u) (o_sval o2)]) @ (es' @ es)"
    by (simp only: es' append_assoc)
  also have "\<dots> = vtrace v @ [Measure (vfo_f v) (o_sval o1),
                       Program (tuned (vfo_f v) o1 + f_lo (vr v) (sideband (vr v))),
                       Clock (o_clock o1),
                       Measure (tuned (vfo_f v) o1) (o_sval o2)] @ (es' @ es)"
    by (simp only: u(1) u(4)) simp
  finally show ?thesis by blast
qed

lemma vstop_loop_key:
  assumes "thresh (vr v) <s vsval v" "vkey v = 0" "o_key o1 \<noteq> 0"
  shows "went (vstop_loop v (o1 # obs))" "vkey (state_of (vstop_loop v (o1 # obs))) = o_key o1"
proof -
  let ?u = "vmanual_tune o1 (Some (o_clock o1))
                   (v\<lparr>vsval := o_sval o1, vkey := o_key o1,
                      vtrace := vtrace v @ [Measure (vfo_f v) (o_sval o1)]\<rparr>)"
  have k: "vkey ?u = o_key o1" by (simp add: vmanual_tune_def Let_def)
  then have n: "\<not> (thresh (vr ?u) <s vsval ?u \<and> vkey ?u = 0)" using assms(3) by simp
  have e: "vstop_loop v (o1 # obs) = Went ?u obs"
    by (simp only: vstop_loop_step [OF assms(1,2)] vstop_loop_done [OF n])
  show "went (vstop_loop v (o1 # obs))" by (simp only: e went.simps)
  show "vkey (state_of (vstop_loop v (o1 # obs))) = o_key o1" by (simp only: e state_of.simps k)
qed

lemma vwait_loop_at_rest:
  "\<forall>ob \<in> set obs. o_knob ob = 0 \<Longrightarrow> vfo_f (state_of (vwait_loop v obs)) = vfo_f v"
proof (induction obs arbitrary: v)
  case Nil
  show ?case by simp
next
  case (Cons ob obs)
  then have t: "tuned f ob = 0" for f by (simp add: tuned_at_rest)
  have r: "\<forall>ob \<in> set obs. o_knob ob = 0" using Cons.prems by simp
  show ?case
  proof (cases "o_clock ob <s vthresh v + 30")
    case True
    show ?thesis
      by (simp only: vwait_loop_step [OF True] Cons.IH [OF r])
        (simp add: vmanual_tune_def t vfo_f_update)
  next
    case False
    show ?thesis by (simp only: vwait_loop_done [OF False] state_of.simps) (simp add: vfo_f_update)
  qed
qed

lemma vwait_loop_tunes:
  assumes "o_clock o1 <s vthresh v + 30" "tuned (vfo_f v) o1 \<noteq> 0"
  shows "\<exists>es. vtrace (state_of (vwait_loop v (o1 # obs))) =
           vtrace v @ [Clock (o_clock o1),
                       Program (tuned (vfo_f v) o1 + f_lo (vr v) (sideband (vr v))),
                       Clock (o_clock2 o1)] @ es"
    and "\<forall>ob \<in> set obs. o_knob ob = 0 \<Longrightarrow>
           vfo_f (state_of (vwait_loop v (o1 # obs))) = tuned (vfo_f v) o1"
proof -
  let ?u = "vmanual_tune o1 (Some (o_clock2 o1))
                   (v\<lparr>vkey := o_key o1,
                      vthresh := (if o_key o1 \<noteq> 0 then 0 else vthresh v),
                      vtrace := vtrace v @ [Clock (o_clock o1)]\<rparr>)"
  have u: "vfo_f ?u = tuned (vfo_f v) o1"
    "vtrace ?u = vtrace v @ [Clock (o_clock o1),
                       Program (tuned (vfo_f v) o1 + f_lo (vr v) (sideband (vr v))),
                       Clock (o_clock2 o1)]"
    using assms by (simp_all add: vmanual_tune_trace vfo_f_update)
  note 1 = vwait_loop_step [OF assms(1), of obs]
  obtain es where es: "vtrace (state_of (vwait_loop ?u obs)) = vtrace ?u @ es"
    using vwait_loop_grows by blast
  have "vtrace (state_of (vwait_loop v (o1 # obs))) =
           vtrace v @ [Clock (o_clock o1),
                       Program (tuned (vfo_f v) o1 + f_lo (vr v) (sideband (vr v))),
                       Clock (o_clock2 o1)] @ es"
    by (simp only: 1 es u(2) append_assoc)
  then show "\<exists>es. vtrace (state_of (vwait_loop v (o1 # obs))) =
           vtrace v @ [Clock (o_clock o1),
                       Program (tuned (vfo_f v) o1 + f_lo (vr v) (sideband (vr v))),
                       Clock (o_clock2 o1)] @ es"
    by blast
  show "vfo_f (state_of (vwait_loop v (o1 # obs))) = tuned (vfo_f v) o1"
    if "\<forall>ob \<in> set obs. o_knob ob = 0"
    by (simp only: 1 vwait_loop_at_rest [OF that] u(1))
qed

lemma vwait_loop_key:
  assumes "o_clock o1 <s vthresh v + 30" "o_key o1 \<noteq> 0" "o_knob o1 = 0"
  shows "\<not> o_clock o2 <s 30 \<Longrightarrow> went (vwait_loop v (o1 # o2 # obs))"
    and "\<not> o_clock o2 <s 30 \<Longrightarrow> vkey (state_of (vwait_loop v (o1 # o2 # obs))) = o_key o1"
    and "\<not> o_clock o2 <s 30 \<Longrightarrow>
           clock_reads (vtrace (state_of (vwait_loop v (o1 # o2 # obs)))) =
             clock_reads (vtrace v) @ [o_clock o1, o_clock o2]"
    and "o_clock o2 <s 30 \<Longrightarrow> \<not> went (vwait_loop v [o1, o2])"
proof -
  let ?u = "vmanual_tune o1 (Some (o_clock2 o1))
                   (v\<lparr>vkey := o_key o1,
                      vthresh := (if o_key o1 \<noteq> 0 then 0 else vthresh v),
                      vtrace := vtrace v @ [Clock (o_clock o1)]\<rparr>)"
  have t: "tuned f o1 = 0" for f using assms(3) by (rule tuned_at_rest)
  have u: "vkey ?u = o_key o1" "vthresh ?u = 0"
    "clock_reads (vtrace ?u) = clock_reads (vtrace v) @ [o_clock o1]"
    using assms by (simp_all add: vmanual_tune_def t clock_reads_append)
  note 1 = vwait_loop_step [OF assms(1)]
  {
    assume c: "\<not> o_clock o2 <s 30"
    then have n: "\<not> o_clock o2 <s vthresh ?u + 30" by (simp only: u(2)) simp
    have e: "vwait_loop v (o1 # o2 # obs) = Went (?u\<lparr>vtrace := vtrace ?u @ [Clock (o_clock o2)]\<rparr>) obs"
      by (simp only: 1 vwait_loop_done [OF n])
    show "went (vwait_loop v (o1 # o2 # obs))" by (simp only: e went.simps)
    show "vkey (state_of (vwait_loop v (o1 # o2 # obs))) = o_key o1"
      using u(1) by (simp only: e state_of.simps) simp
    show "clock_reads (vtrace (state_of (vwait_loop v (o1 # o2 # obs)))) =
             clock_reads (vtrace v) @ [o_clock o1, o_clock o2]"
      using u(3) by (simp only: e state_of.simps) (simp add: clock_reads_append)
  }
  {
    assume c: "o_clock o2 <s 30"
    then have c': "o_clock o2 <s vthresh ?u + 30" by (simp only: u(2)) simp
    have "vwait_loop v [o1, o2] = vwait_loop ?u [o2]" by (rule 1)
    also have "\<dots> = vwait_loop (vmanual_tune o2 (Some (o_clock2 o2))
                   (?u\<lparr>vkey := o_key o2,
                      vthresh := (if o_key o2 \<noteq> 0 then 0 else vthresh ?u),
                      vtrace := vtrace ?u @ [Clock (o_clock o2)]\<rparr>)) []"
      by (rule vwait_loop_step [OF c'])
    finally show "\<not> went (vwait_loop v [o1, o2])"
      by (simp only: vwait_loop.simps went.simps) simp
  }
qed

lemma stop_loop_tunes_first:
  assumes "thresh r <s sval v" "key v = 0" "tuned (fx v) o1 \<noteq> 0"
  shows "\<exists>es. trace (state_of (stop_loop r v (o1 # obs))) =
           trace v @ [Measure (fx v) (o_sval o1), Program (tuned (fx v) o1 + f_lo r (sideband r))] @ es"
proof -
  let ?u = "manual_tune r o1 (v\<lparr>sval := o_sval o1, key := o_key o1, wait := 1,
                trace := trace v @ [Measure (fx v) (o_sval o1)]\<rparr>)"
  have u: "trace ?u = trace v @ [Measure (fx v) (o_sval o1), Program (tuned (fx v) o1 + f_lo r (sideband r))]"
    using assms by (simp add: manual_tune_trace)
  obtain es where es: "trace (state_of (stop_loop r ?u obs)) = trace ?u @ es"
    using stop_loop_grows by blast
  have "trace (state_of (stop_loop r v (o1 # obs))) =
          trace v @ [Measure (fx v) (o_sval o1), Program (tuned (fx v) o1 + f_lo r (sideband r))] @ es"
    by (simp only: stop_loop_step [OF assms(1,2)] es u append_assoc)
  then show ?thesis by blast
qed

lemma vstop_loop_tunes_first:
  assumes "thresh (vr v) <s vsval v" "vkey v = 0" "tuned (vfo_f v) o1 \<noteq> 0"
  shows "\<exists>es. vtrace (state_of (vstop_loop v (o1 # obs))) =
           vtrace v @ [Measure (vfo_f v) (o_sval o1),
                       Program (tuned (vfo_f v) o1 + f_lo (vr v) (sideband (vr v))),
                       Clock (o_clock o1)] @ es"
proof -
  let ?u = "vmanual_tune o1 (Some (o_clock o1))
                   (v\<lparr>vsval := o_sval o1, vkey := o_key o1,
                      vtrace := vtrace v @ [Measure (vfo_f v) (o_sval o1)]\<rparr>)"
  have u: "vtrace ?u = vtrace v @ [Measure (vfo_f v) (o_sval o1),
                       Program (tuned (vfo_f v) o1 + f_lo (vr v) (sideband (vr v))),
                       Clock (o_clock o1)]"
    using assms by (simp add: vmanual_tune_trace vfo_f_update)
  obtain es where es: "vtrace (state_of (vstop_loop ?u obs)) = vtrace ?u @ es"
    using vstop_loop_grows by blast
  have "vtrace (state_of (vstop_loop v (o1 # obs))) =
          vtrace v @ [Measure (vfo_f v) (o_sval o1),
                       Program (tuned (vfo_f v) o1 + f_lo (vr v) (sideband (vr v))),
                       Clock (o_clock o1)] @ es"
    by (simp only: vstop_loop_step [OF assms(1,2)] es u append_assoc)
  then show ?thesis by blast
qed

lemma stop_loop_rest:
  "thresh r <s sval v \<Longrightarrow> key v = 0 \<Longrightarrow>
   \<forall>ob \<in> set obs. thresh r <s o_sval ob \<and> o_key ob = 0 \<and> o_knob ob = 0 \<Longrightarrow>
   \<exists>v'. stop_loop r v obs = Starved v' \<and>
        trace v' = trace v @ map (\<lambda>ob. Measure (fx v) (o_sval ob)) obs"
proof (induction obs arbitrary: v)
  case Nil
  then show ?case by simp
next
  case (Cons ob obs)
  let ?u = "manual_tune r ob (v\<lparr>sval := o_sval ob, key := o_key ob, wait := 1,
                trace := trace v @ [Measure (fx v) (o_sval ob)]\<rparr>)"
  have t: "tuned f ob = 0" for f using Cons.prems(3) by (simp add: tuned_at_rest)
  have u: "?u = v\<lparr>sval := o_sval ob, key := o_key ob, wait := 1,
                trace := trace v @ [Measure (fx v) (o_sval ob)]\<rparr>"
    by (simp add: manual_tune_def t)
  have 1: "thresh r <s sval ?u" "key ?u = 0" using Cons.prems(3) by (simp_all add: manual_tune_def t)
  have 2: "\<forall>ob \<in> set obs. thresh r <s o_sval ob \<and> o_key ob = 0 \<and> o_knob ob = 0"
    using Cons.prems(3) by simp
  from Cons.IH [OF 1 2] obtain v' where v': "stop_loop r ?u obs = Starved v'"
    "trace v' = trace ?u @ map (\<lambda>ob. Measure (fx ?u) (o_sval ob)) obs" by blast
  have "trace v' = trace v @ map (\<lambda>ob. Measure (fx v) (o_sval ob)) (ob # obs)"
    using v'(2) by (simp add: u)
  then show ?case using v'(1) by (simp only: stop_loop_step [OF Cons.prems(1,2)]) blast
qed

lemma scan_f0_f1_rest:
  assumes "f_vfo r (cur_band r) 0 \<noteq> f_vfo r (cur_band r) 1"
    and "thresh r <s o_sval o1" "o_key o1 = 0"
    and "\<forall>ob \<in> set obs. thresh r <s o_sval ob \<and> o_key ob = 0 \<and> o_knob ob = 0"
    and "f0 = (if f_vfo r (cur_band r) 1 <s f_vfo r (cur_band r) 0
               then f_vfo r (cur_band r) 1 else f_vfo r (cur_band r) 0)"
  shows "trace (vars_of (scan_f0_f1 r wait0 (o1 # obs))) =
           Program (f0 + f_lo r (sideband r)) # map (\<lambda>ob. Measure f0 (o_sval ob)) (o1 # obs)"
proof -
  let ?fa = "f_vfo r (cur_band r) 0" and ?fb = "f_vfo r (cur_band r) 1"
  let ?f1 = "if ?fb <s ?fa then ?fa else ?fb"
  let ?v = "\<lparr>fx = f0, key = 0, sval = 0, wait = wait0, runsecs10thresh = 0, trace = []\<rparr>"
  let ?v1 = "?v\<lparr>key := o_key o1, sval := o_sval o1,
        trace := trace ?v @ [Program (fx ?v + f_lo r (sideband r)), Measure (fx ?v) (o_sval o1)]\<rparr>"
  have lt: "f0 <s ?f1"
    using assms(1,5) by (auto simp: word_sless_alt word_eq_iff_signed [where ?'a = int])
  have "thresh r <s sval ?v1" "key ?v1 = 0" using assms(2,3) by simp_all
  from stop_loop_rest [OF this assms(4)] obtain v' where
    v': "stop_loop r ?v1 obs = Starved v'"
        "trace v' = trace ?v1 @ map (\<lambda>ob. Measure (fx ?v1) (o_sval ob)) obs"
    by blast
  have b: "scan_body r ?v (o1 # obs) = Starved v'" using v'(1) by (simp add: scan_body_def)
  have "sweep r f0 ?f1 ?v (o1 # obs) = Pending v'"
    using lt b by (subst sweep.simps) simp
  then have "scan_f0_f1 r wait0 (o1 # obs) = Pending v'"
    using assms(5) by (simp add: scan_f0_f1_def Let_def)
  then show ?thesis using v'(2) by simp
qed

lemma vstop_loop_rest:
  "thresh (vr v) <s vsval v \<Longrightarrow> vkey v = 0 \<Longrightarrow>
   \<forall>ob \<in> set obs. thresh (vr v) <s o_sval ob \<and> o_key ob = 0 \<and> o_knob ob = 0 \<Longrightarrow>
   \<exists>v'. vstop_loop v obs = Starved v' \<and>
        vtrace v' = vtrace v @ map (\<lambda>ob. Measure (vfo_f v) (o_sval ob)) obs"
proof (induction obs arbitrary: v)
  case Nil
  then show ?case by simp
next
  case (Cons ob obs)
  let ?u = "vmanual_tune ob (Some (o_clock ob))
                   (v\<lparr>vsval := o_sval ob, vkey := o_key ob,
                      vtrace := vtrace v @ [Measure (vfo_f v) (o_sval ob)]\<rparr>)"
  have t: "tuned f ob = 0" for f using Cons.prems(3) by (simp add: tuned_at_rest)
  have u: "?u = v\<lparr>vsval := o_sval ob, vkey := o_key ob,
                      vtrace := vtrace v @ [Measure (vfo_f v) (o_sval ob)]\<rparr>"
    by (simp add: vmanual_tune_def t)
  have 1: "thresh (vr ?u) <s vsval ?u" "vkey ?u = 0"
    using Cons.prems(3) by (simp_all add: vmanual_tune_def t)
  have 2: "\<forall>ob \<in> set obs. thresh (vr ?u) <s o_sval ob \<and> o_key ob = 0 \<and> o_knob ob = 0"
    using Cons.prems(3) by (simp add: vmanual_tune_def t)
  from Cons.IH [OF 1 2] obtain v' where v': "vstop_loop ?u obs = Starved v'"
    "vtrace v' = vtrace ?u @ map (\<lambda>ob. Measure (vfo_f ?u) (o_sval ob)) obs" by blast
  have "vtrace v' = vtrace v @ map (\<lambda>ob. Measure (vfo_f v) (o_sval ob)) (ob # obs)"
    using v'(2) by (simp add: u vfo_f_update)
  then show ?case using v'(1) by (simp only: vstop_loop_step [OF Cons.prems(1,2)]) blast
qed

lemma scan_vfoa_vfob_rest:
  assumes "thresh r <s o_sval o1" "o_key o1 = 0"
    and "\<forall>ob \<in> set obs. thresh r <s o_sval ob \<and> o_key ob = 0 \<and> o_knob ob = 0"
  shows "vtrace (vars_of (scan_vfoa_vfob r (o1 # obs))) =
           Program (f_vfo r (cur_band r) 0 + f_lo r (sideband r)) #
           map (\<lambda>ob. Measure (f_vfo r (cur_band r) 0) (o_sval ob)) (o1 # obs)"
proof -
  let ?v = "\<lparr>vr = r, t1 = 0, vkey = 0, vsval = 0, vthresh = 0, vtrace = []\<rparr>"
  let ?v1 = "?v\<lparr>vkey := o_key o1, vsval := o_sval o1,
        vtrace := vtrace ?v @ [Program (vfo_f ?v + f_lo (vr ?v) (sideband (vr ?v))),
                              Measure (vfo_f ?v) (o_sval o1)]\<rparr>"
  have "thresh (vr ?v1) <s vsval ?v1" "vkey ?v1 = 0"
    "\<forall>ob \<in> set obs. thresh (vr ?v1) <s o_sval ob \<and> o_key ob = 0 \<and> o_knob ob = 0"
    using assms by simp_all
  from vstop_loop_rest [OF this] obtain v' where
    v': "vstop_loop ?v1 obs = Starved v'"
        "vtrace v' = vtrace ?v1 @ map (\<lambda>ob. Measure (vfo_f ?v1) (o_sval ob)) obs"
    by blast
  have b: "vscan_body ?v (o1 # obs) = Starved v'" using v'(1) by (simp add: vscan_body_def)
  have "valternate ?v (o1 # obs) = Pending v'"
    using b by (subst valternate.simps) (simp add: word_sless_alt)
  then have "scan_vfoa_vfob r (o1 # obs) = Pending v'" by (simp add: scan_vfoa_vfob_def)
  then show ?thesis using v'(2) by (simp add: vfo_f_def)
qed

section \<open>Stopping on a signal and the dwell\<close>

text \<open>
  Claim C7, as amended. \<open>r\<close> is the radio, \<open>v\<close> the local variables of \<open>scan_f0_f1\<close> and \<open>u\<close>
  those of \<open>scan_vfoa_vfob\<close>, at any point of a run; \<open>o1\<close>, \<open>o2\<close> and \<open>obs\<close> are what the program
  sees next. For both scans:

  \<^item> The stop. When the stop loop is left, the level is not above the threshold or a key is
    pressed. As long as every level seen is above the threshold and no key is pressed the
    scan does not return and stays in the stop: it is still pending and has measured every
    level shown to it (for \<open>scan_f0_f1\<close> the two VFO frequencies have to differ, or the loop
    body is never entered). If the knob is at rest as well, the scan has programmed the DDS
    once, to its first frequency, and has made every measurement on that frequency. A key
    seen in a round of the stop loop ends the stop with that round, after its measurement,
    and stays in \<open>key\<close>.
  \<^item> The dwell. When the loop body of \<open>scan_f0_f1\<close> is left after a stop with no key pressed
    meanwhile, the tick counter was read at least twice after the last measurement, and the
    last reading is not below the first one plus 30 in the signed 32-bit arithmetic of the
    code; it is at least 30 ticks later when the first reading is at most \<open>2^31 - 31\<close>, so
    that the sum does not overflow. For \<open>scan_vfoa_vfob\<close> the same holds with some earlier
    reading made after the last measurement in place of the first one.
  \<^item> A key in the dwell. A key seen in a round of the dwell loop (in \<open>scan_vfoa_vfob\<close>: with
    the knob at rest in that round) sets the reference to 0. The dwell then ends at the next
    reading of the tick counter if that reading is not below 30, with the key still in
    \<open>key\<close>; if the reading is below 30 the dwell goes on.
  \<^item> Tuning in the stop. When the knob has moved in a round of the stop loop, the DDS is
    programmed to the tuned frequency in that round, after the measurement of the round, and
    if the stop goes on the next measurement is made on the tuned frequency
    (\<open>scan_vfoa_vfob\<close> also reads the tick counter in between).
  \<^item> Tuning in the dwell. When the knob has moved in a round of the dwell loop, the DDS is
    programmed to the tuned frequency right after the reading of the tick counter
    (\<open>scan_vfoa_vfob\<close> then reads the tick counter again), and with the knob at rest for the
    remainder of the dwell the probe frequency at its end is the tuned frequency.
  \<^item> Every measurement of a scan is made with the DDS programmed to the probe frequency plus
    the LO frequency of the sideband, whatever tuning came before it.
\<close>

theorem scan_stop_and_dwell:
  "(went (stop_loop r v obs) \<longrightarrow>
      \<not> (thresh r <s sval (state_of (stop_loop r v obs)) \<and> key (state_of (stop_loop r v obs)) = 0)) \<and>
   (f_vfo r (cur_band r) 0 \<noteq> f_vfo r (cur_band r) 1 \<and> thresh r <s o_sval o1 \<and> o_key o1 = 0 \<and>
    (\<forall>ob \<in> set obs. thresh r <s o_sval ob \<and> o_key ob = 0) \<longrightarrow>
      pending (scan_f0_f1 r wait0 (o1 # obs)) \<and>
      levels (trace (vars_of (scan_f0_f1 r wait0 (o1 # obs)))) = map o_sval (o1 # obs)) \<and>
   (went (scan_body r v (o1 # obs)) \<and> thresh r <s o_sval o1 \<and> o_key o1 = 0 \<and>
    (\<forall>ob \<in> set obs. o_key ob = 0) \<longrightarrow>
      (\<exists>c0 cs. clock_reads (after_measure (trace (state_of (scan_body r v (o1 # obs))))) = c0 # cs \<and>
         cs \<noteq> [] \<and> \<not> last cs <s c0 + 30 \<and>
         (sint c0 \<le> 2147483617 \<longrightarrow> sint c0 + 30 \<le> sint (last cs)))) \<and>
   on_frequency (f_lo r (sideband r)) None (trace (vars_of (scan_f0_f1 r wait0 obs))) \<and>
   (went (vstop_loop u obs) \<longrightarrow>
      \<not> (thresh (vr (state_of (vstop_loop u obs))) <s vsval (state_of (vstop_loop u obs)) \<and>
         vkey (state_of (vstop_loop u obs)) = 0)) \<and>
   (thresh r <s o_sval o1 \<and> o_key o1 = 0 \<and>
    (\<forall>ob \<in> set obs. thresh r <s o_sval ob \<and> o_key ob = 0) \<longrightarrow>
      pending (scan_vfoa_vfob r (o1 # obs)) \<and>
      levels (vtrace (vars_of (scan_vfoa_vfob r (o1 # obs)))) = map o_sval (o1 # obs)) \<and>
   (went (vscan_body u (o1 # obs)) \<and> (\<forall>ob \<in> set obs. o_key ob = 0) \<longrightarrow>
      (\<exists>c \<in> set (butlast (clock_reads (after_measure (vtrace (state_of (vscan_body u (o1 # obs))))))).
         \<not> last (clock_reads (after_measure (vtrace (state_of (vscan_body u (o1 # obs)))))) <s c + 30 \<and>
         (sint c \<le> 2147483617 \<longrightarrow>
            sint c + 30
              \<le> sint (last (clock_reads (after_measure (vtrace (state_of (vscan_body u (o1 # obs)))))))))) \<and>
   on_frequency (f_lo r (sideband r)) None (vtrace (vars_of (scan_vfoa_vfob r obs))) \<and>
   (thresh r <s sval v \<and> key v = 0 \<and> tuned (fx v) o1 \<noteq> 0 \<longrightarrow>
      (\<exists>es. trace (state_of (stop_loop r v (o1 # obs))) =
         trace v @ [Measure (fx v) (o_sval o1), Program (tuned (fx v) o1 + f_lo r (sideband r))] @ es) \<and>
      (thresh r <s o_sval o1 \<and> o_key o1 = 0 \<longrightarrow>
         (\<exists>es. trace (state_of (stop_loop r v (o1 # o2 # obs))) =
            trace v @ [Measure (fx v) (o_sval o1), Program (tuned (fx v) o1 + f_lo r (sideband r)),
                       Measure (tuned (fx v) o1) (o_sval o2)] @ es))) \<and>
   (o_clock o1 <s runsecs10thresh v + 30 \<and> tuned (fx v) o1 \<noteq> 0 \<longrightarrow>
      (\<exists>es. trace (state_of (wait_loop r v (o1 # obs))) =
         trace v @ [Clock (o_clock o1), Program (tuned (fx v) o1 + f_lo r (sideband r))] @ es) \<and>
      ((\<forall>ob \<in> set obs. o_knob ob = 0) \<longrightarrow>
         fx (state_of (wait_loop r v (o1 # obs))) = tuned (fx v) o1)) \<and>
   (thresh r <s sval v \<and> key v = 0 \<and> o_key o1 \<noteq> 0 \<longrightarrow>
      went (stop_loop r v (o1 # obs)) \<and> key (state_of (stop_loop r v (o1 # obs))) = o_key o1 \<and>
      levels (trace (state_of (stop_loop r v (o1 # obs)))) = levels (trace v) @ [o_sval o1]) \<and>
   (o_clock o1 <s runsecs10thresh v + 30 \<and> o_key o1 \<noteq> 0 \<longrightarrow>
      (\<not> o_clock o2 <s 30 \<longrightarrow>
         went (wait_loop r v (o1 # o2 # obs)) \<and>
         key (state_of (wait_loop r v (o1 # o2 # obs))) = o_key o1 \<and>
         clock_reads (trace (state_of (wait_loop r v (o1 # o2 # obs)))) =
           clock_reads (trace v) @ [o_clock o1, o_clock o2]) \<and>
      (o_clock o2 <s 30 \<longrightarrow> \<not> went (wait_loop r v [o1, o2]))) \<and>
   (thresh (vr u) <s vsval u \<and> vkey u = 0 \<and> tuned (vfo_f u) o1 \<noteq> 0 \<longrightarrow>
      (\<exists>es. vtrace (state_of (vstop_loop u (o1 # obs))) =
         vtrace u @ [Measure (vfo_f u) (o_sval o1),
                     Program (tuned (vfo_f u) o1 + f_lo (vr u) (sideband (vr u))),
                     Clock (o_clock o1)] @ es) \<and>
      (thresh (vr u) <s o_sval o1 \<and> o_key o1 = 0 \<longrightarrow>
         (\<exists>es. vtrace (state_of (vstop_loop u (o1 # o2 # obs))) =
            vtrace u @ [Measure (vfo_f u) (o_sval o1),
                        Program (tuned (vfo_f u) o1 + f_lo (vr u) (sideband (vr u))),
                        Clock (o_clock o1),
                        Measure (tuned (vfo_f u) o1) (o_sval o2)] @ es))) \<and>
   (o_clock o1 <s vthresh u + 30 \<and> tuned (vfo_f u) o1 \<noteq> 0 \<longrightarrow>
      (\<exists>es. vtrace (state_of (vwait_loop u (o1 # obs))) =
         vtrace u @ [Clock (o_clock o1),
                     Program (tuned (vfo_f u) o1 + f_lo (vr u) (sideband (vr u))),
                     Clock (o_clock2 o1)] @ es) \<and>
      ((\<forall>ob \<in> set obs. o_knob ob = 0) \<longrightarrow>
         vfo_f (state_of (vwait_loop u (o1 # obs))) = tuned (vfo_f u) o1)) \<and>
   (thresh (vr u) <s vsval u \<and> vkey u = 0 \<and> o_key o1 \<noteq> 0 \<longrightarrow>
      went (vstop_loop u (o1 # obs)) \<and> vkey (state_of (vstop_loop u (o1 # obs))) = o_key o1) \<and>
   (o_clock o1 <s vthresh u + 30 \<and> o_key o1 \<noteq> 0 \<and> o_knob o1 = 0 \<longrightarrow>
      (\<not> o_clock o2 <s 30 \<longrightarrow>
         went (vwait_loop u (o1 # o2 # obs)) \<and>
         vkey (state_of (vwait_loop u (o1 # o2 # obs))) = o_key o1 \<and>
         clock_reads (vtrace (state_of (vwait_loop u (o1 # o2 # obs)))) =
           clock_reads (vtrace u) @ [o_clock o1, o_clock o2]) \<and>
      (o_clock o2 <s 30 \<longrightarrow> \<not> went (vwait_loop u [o1, o2]))) \<and>
   (f_vfo r (cur_band r) 0 \<noteq> f_vfo r (cur_band r) 1 \<and> thresh r <s o_sval o1 \<and> o_key o1 = 0 \<and>
    (\<forall>ob \<in> set obs. thresh r <s o_sval ob \<and> o_key ob = 0 \<and> o_knob ob = 0) \<and>
    f0 = (if f_vfo r (cur_band r) 1 <s f_vfo r (cur_band r) 0
          then f_vfo r (cur_band r) 1 else f_vfo r (cur_band r) 0) \<longrightarrow>
      trace (vars_of (scan_f0_f1 r wait0 (o1 # obs))) =
        Program (f0 + f_lo r (sideband r)) # map (\<lambda>ob. Measure f0 (o_sval ob)) (o1 # obs)) \<and>
   (thresh r <s o_sval o1 \<and> o_key o1 = 0 \<and>
    (\<forall>ob \<in> set obs. thresh r <s o_sval ob \<and> o_key ob = 0 \<and> o_knob ob = 0) \<longrightarrow>
      vtrace (vars_of (scan_vfoa_vfob r (o1 # obs))) =
        Program (f_vfo r (cur_band r) 0 + f_lo r (sideband r)) #
        map (\<lambda>ob. Measure (f_vfo r (cur_band r) 0) (o_sval ob)) (o1 # obs))"
proof -
  have 1: "went (stop_loop r v obs) \<longrightarrow>
      \<not> (thresh r <s sval (state_of (stop_loop r v obs)) \<and> key (state_of (stop_loop r v obs)) = 0)"
    using stop_loop_exit [of r v obs] by (cases "stop_loop r v obs") simp_all
  have 2: "f_vfo r (cur_band r) 0 \<noteq> f_vfo r (cur_band r) 1 \<and> thresh r <s o_sval o1 \<and> o_key o1 = 0 \<and>
    (\<forall>ob \<in> set obs. thresh r <s o_sval ob \<and> o_key ob = 0) \<longrightarrow>
      pending (scan_f0_f1 r wait0 (o1 # obs)) \<and>
      levels (trace (vars_of (scan_f0_f1 r wait0 (o1 # obs)))) = map o_sval (o1 # obs)"
    using scan_f0_f1_stays [of r o1 obs wait0] by auto
  have 3: "went (scan_body r v (o1 # obs)) \<and> thresh r <s o_sval o1 \<and> o_key o1 = 0 \<and>
    (\<forall>ob \<in> set obs. o_key ob = 0) \<longrightarrow>
      (\<exists>c0 cs. clock_reads (after_measure (trace (state_of (scan_body r v (o1 # obs))))) = c0 # cs \<and>
         cs \<noteq> [] \<and> \<not> last cs <s c0 + 30 \<and>
         (sint c0 \<le> 2147483617 \<longrightarrow> sint c0 + 30 \<le> sint (last cs)))"
  proof (cases "scan_body r v (o1 # obs)")
    case (Starved v')
    then show ?thesis by simp
  next
    case (Went v' rest)
    show ?thesis using scan_body_dwell [OF Went] by (simp add: Went)
  qed
  have 4: "on_frequency (f_lo r (sideband r)) None (trace (vars_of (scan_f0_f1 r wait0 obs)))"
    by (rule scan_f0_f1_on_frequency)
  have 5: "went (vstop_loop u obs) \<longrightarrow>
      \<not> (thresh (vr (state_of (vstop_loop u obs))) <s vsval (state_of (vstop_loop u obs)) \<and>
         vkey (state_of (vstop_loop u obs)) = 0)"
    using vstop_loop_exit [of u obs] by (cases "vstop_loop u obs") simp_all
  have 6: "thresh r <s o_sval o1 \<and> o_key o1 = 0 \<and>
    (\<forall>ob \<in> set obs. thresh r <s o_sval ob \<and> o_key ob = 0) \<longrightarrow>
      pending (scan_vfoa_vfob r (o1 # obs)) \<and>
      levels (vtrace (vars_of (scan_vfoa_vfob r (o1 # obs)))) = map o_sval (o1 # obs)"
    using scan_vfoa_vfob_stays [of r o1 obs] by auto
  have 7: "went (vscan_body u (o1 # obs)) \<and> (\<forall>ob \<in> set obs. o_key ob = 0) \<longrightarrow>
      (\<exists>c \<in> set (butlast (clock_reads (after_measure (vtrace (state_of (vscan_body u (o1 # obs))))))).
         \<not> last (clock_reads (after_measure (vtrace (state_of (vscan_body u (o1 # obs)))))) <s c + 30 \<and>
         (sint c \<le> 2147483617 \<longrightarrow>
            sint c + 30
              \<le> sint (last (clock_reads (after_measure (vtrace (state_of (vscan_body u (o1 # obs)))))))))"
  proof (cases "vscan_body u (o1 # obs)")
    case (Starved v')
    then show ?thesis by simp
  next
    case (Went v' rest)
    show ?thesis using vscan_body_dwell [OF Went] by (simp add: Went)
  qed
  have 8: "on_frequency (f_lo r (sideband r)) None (vtrace (vars_of (scan_vfoa_vfob r obs)))"
    by (rule scan_vfoa_vfob_on_frequency)
  have 9: "(thresh r <s sval v \<and> key v = 0 \<and> tuned (fx v) o1 \<noteq> 0 \<longrightarrow>
      (\<exists>es. trace (state_of (stop_loop r v (o1 # obs))) =
         trace v @ [Measure (fx v) (o_sval o1), Program (tuned (fx v) o1 + f_lo r (sideband r))] @ es) \<and>
      (thresh r <s o_sval o1 \<and> o_key o1 = 0 \<longrightarrow>
         (\<exists>es. trace (state_of (stop_loop r v (o1 # o2 # obs))) =
            trace v @ [Measure (fx v) (o_sval o1), Program (tuned (fx v) o1 + f_lo r (sideband r)),
                       Measure (tuned (fx v) o1) (o_sval o2)] @ es)))"
    using stop_loop_tunes_first [where r = r and v = v and ?o1.0 = o1 and obs = obs]
      stop_loop_tunes [where r = r and v = v and ?o1.0 = o1 and ?o2.0 = o2 and obs = obs] by blast
  have 10: "(o_clock o1 <s runsecs10thresh v + 30 \<and> tuned (fx v) o1 \<noteq> 0 \<longrightarrow>
      (\<exists>es. trace (state_of (wait_loop r v (o1 # obs))) =
         trace v @ [Clock (o_clock o1), Program (tuned (fx v) o1 + f_lo r (sideband r))] @ es) \<and>
      ((\<forall>ob \<in> set obs. o_knob ob = 0) \<longrightarrow>
         fx (state_of (wait_loop r v (o1 # obs))) = tuned (fx v) o1))"
    using wait_loop_tunes [where r = r and v = v and ?o1.0 = o1 and obs = obs] by blast
  have 11: "(thresh r <s sval v \<and> key v = 0 \<and> o_key o1 \<noteq> 0 \<longrightarrow>
      went (stop_loop r v (o1 # obs)) \<and> key (state_of (stop_loop r v (o1 # obs))) = o_key o1 \<and>
      levels (trace (state_of (stop_loop r v (o1 # obs)))) = levels (trace v) @ [o_sval o1])"
    using stop_loop_key [where r = r and v = v and ?o1.0 = o1 and obs = obs] by blast
  have 12: "(o_clock o1 <s runsecs10thresh v + 30 \<and> o_key o1 \<noteq> 0 \<longrightarrow>
      (\<not> o_clock o2 <s 30 \<longrightarrow>
         went (wait_loop r v (o1 # o2 # obs)) \<and>
         key (state_of (wait_loop r v (o1 # o2 # obs))) = o_key o1 \<and>
         clock_reads (trace (state_of (wait_loop r v (o1 # o2 # obs)))) =
           clock_reads (trace v) @ [o_clock o1, o_clock o2]) \<and>
      (o_clock o2 <s 30 \<longrightarrow> \<not> went (wait_loop r v [o1, o2])))"
    using wait_loop_key [where r = r and v = v and ?o1.0 = o1 and ?o2.0 = o2] by blast
  have 13: "(thresh (vr u) <s vsval u \<and> vkey u = 0 \<and> tuned (vfo_f u) o1 \<noteq> 0 \<longrightarrow>
      (\<exists>es. vtrace (state_of (vstop_loop u (o1 # obs))) =
         vtrace u @ [Measure (vfo_f u) (o_sval o1),
                     Program (tuned (vfo_f u) o1 + f_lo (vr u) (sideband (vr u))),
                     Clock (o_clock o1)] @ es) \<and>
      (thresh (vr u) <s o_sval o1 \<and> o_key o1 = 0 \<longrightarrow>
         (\<exists>es. vtrace (state_of (vstop_loop u (o1 # o2 # obs))) =
            vtrace u @ [Measure (vfo_f u) (o_sval o1),
                        Program (tuned (vfo_f u) o1 + f_lo (vr u) (sideband (vr u))),
                        Clock (o_clock o1),
                        Measure (tuned (vfo_f u) o1) (o_sval o2)] @ es)))"
    using vstop_loop_tunes_first [where v = u and ?o1.0 = o1 and obs = obs]
      vstop_loop_tunes [where v = u and ?o1.0 = o1 and ?o2.0 = o2 and obs = obs] by blast
  have 14: "(o_clock o1 <s vthresh u + 30 \<and> tuned (vfo_f u) o1 \<noteq> 0 \<longrightarrow>
      (\<exists>es. vtrace (state_of (vwait_loop u (o1 # obs))) =
         vtrace u @ [Clock (o_clock o1),
                     Program (tuned (vfo_f u) o1 + f_lo (vr u) (sideband (vr u))),
                     Clock (o_clock2 o1)] @ es) \<and>
      ((\<forall>ob \<in> set obs. o_knob ob = 0) \<longrightarrow>
         vfo_f (state_of (vwait_loop u (o1 # obs))) = tuned (vfo_f u) o1))"
    using vwait_loop_tunes [where v = u and ?o1.0 = o1 and obs = obs] by blast
  have 15: "(thresh (vr u) <s vsval u \<and> vkey u = 0 \<and> o_key o1 \<noteq> 0 \<longrightarrow>
      went (vstop_loop u (o1 # obs)) \<and> vkey (state_of (vstop_loop u (o1 # obs))) = o_key o1)"
    using vstop_loop_key [where v = u and ?o1.0 = o1 and obs = obs] by blast
  have 16: "(o_clock o1 <s vthresh u + 30 \<and> o_key o1 \<noteq> 0 \<and> o_knob o1 = 0 \<longrightarrow>
      (\<not> o_clock o2 <s 30 \<longrightarrow>
         went (vwait_loop u (o1 # o2 # obs)) \<and>
         vkey (state_of (vwait_loop u (o1 # o2 # obs))) = o_key o1 \<and>
         clock_reads (vtrace (state_of (vwait_loop u (o1 # o2 # obs)))) =
           clock_reads (vtrace u) @ [o_clock o1, o_clock o2]) \<and>
      (o_clock o2 <s 30 \<longrightarrow> \<not> went (vwait_loop u [o1, o2])))"
    using vwait_loop_key [where v = u and ?o1.0 = o1 and ?o2.0 = o2] by blast
  have 17: "(f_vfo r (cur_band r) 0 \<noteq> f_vfo r (cur_band r) 1 \<and> thresh r <s o_sval o1 \<and> o_key o1 = 0 \<and>
    (\<forall>ob \<in> set obs. thresh r <s o_sval ob \<and> o_key ob = 0 \<and> o_knob ob = 0) \<and>
    f0 = (if f_vfo r (cur_band r) 1 <s f_vfo r (cur_band r) 0
          then f_vfo r (cur_band r) 1 else f_vfo r (cur_band r) 0) \<longrightarrow>
      trace (vars_of (scan_f0_f1 r wait0 (o1 # obs))) =
        Program (f0 + f_lo r (sideband r)) # map (\<lambda>ob. Measure f0 (o_sval ob)) (o1 # obs))"
    using scan_f0_f1_rest [where r = r and ?o1.0 = o1 and obs = obs and ?f0.0 = f0 and ?wait0.0 = wait0] by blast
  have 18: "(thresh r <s o_sval o1 \<and> o_key o1 = 0 \<and>
    (\<forall>ob \<in> set obs. thresh r <s o_sval ob \<and> o_key ob = 0 \<and> o_knob ob = 0) \<longrightarrow>
      vtrace (vars_of (scan_vfoa_vfob r (o1 # obs))) =
        Program (f_vfo r (cur_band r) 0 + f_lo r (sideband r)) #
        map (\<lambda>ob. Measure (f_vfo r (cur_band r) 0) (o_sval ob)) (o1 # obs))"
    using scan_vfoa_vfob_rest [where r = r and ?o1.0 = o1 and obs = obs] by blast
  show ?thesis using 1 2 3 4 5 6 7 8 9 10 11 12 13 14 15 16 17 18 by (intro conjI)
qed

text \<open>
  The theorem at work on the radio started from a blank EEPROM. Three levels above the
  threshold keep both scans on their first frequency, and a stop that ends with level 3 at
  tick 100 is left at tick 130. With the knob turned by 50 Hz in a round of the stop or of the
  dwell the DDS goes to 14.18005 MHz plus the LO frequency, and the next measurement of the
  stop is made on 14.18005 MHz. Key 4 ends the stop, and it ends the dwell at the next reading
  of the tick counter when that is 100 but not when it is 20. The last line is a whole run of
  \<open>scan_f0_f1\<close> with the knob turned once in the stop and once in the dwell.
\<close>

theorem scan_stop_and_dwell_witness:
  "(thresh radio20 <s o_sval (seen 0 20 100) \<and> o_key (seen 0 20 100) = 0) \<and>
   f_vfo radio20 (cur_band radio20) 0 \<noteq> f_vfo radio20 (cur_band radio20) 1 \<and>
   (pending (scan_f0_f1 radio20 0 ((seen 0 20 100) # [seen 0 21 100, seen 0 22 100])) \<and>
     levels (trace (vars_of (scan_f0_f1 radio20 0 ((seen 0 20 100) # [seen 0 21 100, seen 0 22
     100])))) = [20, 21, 22]) \<and>
   (pending (scan_vfoa_vfob radio20 ((seen 0 20 100) # [seen 0 21 100, seen 0 22 100])) \<and>
     levels (vtrace (vars_of (scan_vfoa_vfob radio20 ((seen 0 20 100) # [seen 0 21 100, seen 0 22
     100])))) = [20, 21, 22]) \<and>
   (14180000 :: clong) = (if f_vfo radio20 (cur_band radio20) 1 <s f_vfo radio20 (cur_band
     radio20) 0 then f_vfo radio20 (cur_band radio20) 1 else f_vfo radio20 (cur_band radio20) 0) \<and>
   (f_lo radio20 (sideband radio20) = 9001800 \<and> f_vfo radio20 (cur_band radio20) 0 =
     14180000) \<and>
   trace (vars_of (scan_f0_f1 radio20 0 ((seen 0 20 100) # [seen 0 21 100, seen 0 22 100]))) =
     [Program 23181800, Measure 14180000 20, Measure 14180000 21, Measure 14180000 22] \<and>
   vtrace (vars_of (scan_vfoa_vfob radio20 ((seen 0 20 100) # [seen 0 21 100, seen 0 22 100])))
     = [Program 23181800, Measure 14180000 20, Measure 14180000 21, Measure 14180000 22] \<and>
   (went (scan_body radio20 sweep_start ((seen 0 20 100) # [seen 0 20 100, seen 0 3 100, seen 0
     3 100, seen 0 3 100, seen 0 3 129, seen 0 3 130, seen 0 3 100])) \<and> went (vscan_body
     alt_start ((seen 0 20 100) # [seen 0 20 100, seen 0 3 100, seen 0 3 100, seen 0 3 100, seen 0
     3 129, seen 0 3 130, seen 0 3 100]))) \<and>
   clock_reads (after_measure (trace (state_of (scan_body radio20 sweep_start ((seen 0 20 100) #
     [seen 0 20 100, seen 0 3 100, seen 0 3 100, seen 0 3 100, seen 0 3 129, seen 0 3 130, seen 0
     3 100]))))) = [100, 100, 129, 130] \<and>
   (\<exists>c0 cs. clock_reads (after_measure (trace (state_of (scan_body radio20 sweep_start
     ((seen 0 20 100) # [seen 0 20 100, seen 0 3 100, seen 0 3 100, seen 0 3 100, seen 0 3 129,
     seen 0 3 130, seen 0 3 100]))))) = c0 # cs \<and> cs \<noteq> [] \<and> \<not> last cs <s c0
     + 30 \<and> (sint c0 \<le> 2147483617 \<longrightarrow> sint c0 + 30 \<le> sint (last cs))) \<and>
   (\<exists>c \<in> set (butlast (clock_reads (after_measure (vtrace (state_of (vscan_body
     alt_start ((seen 0 20 100) # [seen 0 20 100, seen 0 3 100, seen 0 3 100, seen 0 3 100, seen 0
     3 129, seen 0 3 130, seen 0 3 100]))))))). \<not> last (clock_reads (after_measure (vtrace
     (state_of (vscan_body alt_start ((seen 0 20 100) # [seen 0 20 100, seen 0 3 100, seen 0 3
     100, seen 0 3 100, seen 0 3 129, seen 0 3 130, seen 0 3 100])))))) <s c + 30) \<and>
   (thresh radio20 <s sval sweep_hold \<and> key sweep_hold = 0 \<and> tuned (fx sweep_hold)
     (turned 3 10 (seen 0 20 100)) \<noteq> 0 \<and> thresh radio20 <s o_sval (turned 3 10 (seen 0
     20 100)) \<and> o_key (turned 3 10 (seen 0 20 100)) = 0 \<and> o_clock (turned 3 10 (seen 0
     20 100)) <s runsecs10thresh sweep_hold + 30) \<and>
   (thresh (vr alt_hold) <s vsval alt_hold \<and> vkey alt_hold = 0 \<and> tuned (vfo_f
     alt_hold) (turned 3 10 (seen 0 20 100)) \<noteq> 0 \<and> thresh (vr alt_hold) <s o_sval
     (turned 3 10 (seen 0 20 100)) \<and> o_clock (turned 3 10 (seen 0 20 100)) <s vthresh
     alt_hold + 30) \<and>
   (tuned (fx sweep_hold) (turned 3 10 (seen 0 20 100)) = 14180050 \<and> tuned (vfo_f alt_hold)
     (turned 3 10 (seen 0 20 100)) = 14180050) \<and>
   (\<exists>es. trace (state_of (stop_loop radio20 sweep_hold ((turned 3 10 (seen 0 20 100)) #
     [seen 0 3 129, seen 0 3 130]))) = trace sweep_hold @ [Measure (fx sweep_hold) (o_sval (turned
     3 10 (seen 0 20 100))), Program (tuned (fx sweep_hold) (turned 3 10 (seen 0 20 100)) + f_lo
     radio20 (sideband radio20))] @ es) \<and>
   (\<exists>es. trace (state_of (stop_loop radio20 sweep_hold ((turned 3 10 (seen 0 20 100)) #
     (seen 0 21 100) # [seen 0 3 129, seen 0 3 130]))) = trace sweep_hold @ [Measure (fx
     sweep_hold) (o_sval (turned 3 10 (seen 0 20 100))), Program (tuned (fx sweep_hold) (turned 3
     10 (seen 0 20 100)) + f_lo radio20 (sideband radio20)), Measure (tuned (fx sweep_hold)
     (turned 3 10 (seen 0 20 100))) (o_sval (seen 0 21 100))] @ es) \<and>
   (\<exists>es. trace (state_of (wait_loop radio20 sweep_hold ((turned 3 10 (seen 0 20 100)) #
     [seen 0 3 129, seen 0 3 130]))) = trace sweep_hold @ [Clock (o_clock (turned 3 10 (seen 0 20
     100))), Program (tuned (fx sweep_hold) (turned 3 10 (seen 0 20 100)) + f_lo radio20 (sideband
     radio20))] @ es) \<and>
   fx (state_of (wait_loop radio20 sweep_hold ((turned 3 10 (seen 0 20 100)) # [seen 0 3 129,
     seen 0 3 130]))) = tuned (fx sweep_hold) (turned 3 10 (seen 0 20 100)) \<and>
   (\<exists>es. vtrace (state_of (vstop_loop alt_hold ((turned 3 10 (seen 0 20 100)) # [seen 0
     3 129, seen 0 3 130]))) = vtrace alt_hold @ [Measure (vfo_f alt_hold) (o_sval (turned 3 10
     (seen 0 20 100))), Program (tuned (vfo_f alt_hold) (turned 3 10 (seen 0 20 100)) + f_lo (vr
     alt_hold) (sideband (vr alt_hold))), Clock (o_clock (turned 3 10 (seen 0 20 100)))] @ es) \<and>
   (\<exists>es. vtrace (state_of (vstop_loop alt_hold ((turned 3 10 (seen 0 20 100)) # (seen 0
     21 100) # [seen 0 3 129, seen 0 3 130]))) = vtrace alt_hold @ [Measure (vfo_f alt_hold)
     (o_sval (turned 3 10 (seen 0 20 100))), Program (tuned (vfo_f alt_hold) (turned 3 10 (seen 0
     20 100)) + f_lo (vr alt_hold) (sideband (vr alt_hold))), Clock (o_clock (turned 3 10 (seen 0
     20 100))), Measure (tuned (vfo_f alt_hold) (turned 3 10 (seen 0 20 100))) (o_sval (seen 0 21
     100))] @ es) \<and>
   (\<exists>es. vtrace (state_of (vwait_loop alt_hold ((turned 3 10 (seen 0 20 100)) # [seen 0
     3 129, seen 0 3 130]))) = vtrace alt_hold @ [Clock (o_clock (turned 3 10 (seen 0 20 100))),
     Program (tuned (vfo_f alt_hold) (turned 3 10 (seen 0 20 100)) + f_lo (vr alt_hold) (sideband
     (vr alt_hold))), Clock (o_clock2 (turned 3 10 (seen 0 20 100)))] @ es) \<and>
   vfo_f (state_of (vwait_loop alt_hold ((turned 3 10 (seen 0 20 100)) # [seen 0 3 129, seen 0 3
     130]))) = tuned (vfo_f alt_hold) (turned 3 10 (seen 0 20 100)) \<and>
   (o_key (seen 4 20 100) \<noteq> 0 \<and> o_knob (seen 4 20 100) = 0 \<and> o_clock (seen 4 20
     100) <s runsecs10thresh sweep_hold + 30 \<and> o_clock (seen 4 20 100) <s vthresh alt_hold +
     30 \<and> \<not> o_clock (seen 0 3 100) <s 30 \<and> o_clock (seen 0 3 20) <s 30) \<and>
   (went (stop_loop radio20 sweep_hold ((seen 4 20 100) # [seen 0 3 129, seen 0 3 130])) \<and>
     key (state_of (stop_loop radio20 sweep_hold ((seen 4 20 100) # [seen 0 3 129, seen 0 3
     130]))) = o_key (seen 4 20 100)) \<and>
   (went (wait_loop radio20 sweep_hold ((seen 4 20 100) # (seen 0 3 100) # [seen 0 3 129, seen 0
     3 130])) \<and> key (state_of (wait_loop radio20 sweep_hold ((seen 4 20 100) # (seen 0 3 100)
     # [seen 0 3 129, seen 0 3 130]))) = o_key (seen 4 20 100)) \<and>
   \<not> went (wait_loop radio20 sweep_hold [(seen 4 20 100), (seen 0 3 20)]) \<and>
   (went (vstop_loop alt_hold ((seen 4 20 100) # [seen 0 3 129, seen 0 3 130])) \<and> vkey
     (state_of (vstop_loop alt_hold ((seen 4 20 100) # [seen 0 3 129, seen 0 3 130]))) = o_key
     (seen 4 20 100)) \<and>
   (went (vwait_loop alt_hold ((seen 4 20 100) # (seen 0 3 100) # [seen 0 3 129, seen 0 3 130]))
     \<and> vkey (state_of (vwait_loop alt_hold ((seen 4 20 100) # (seen 0 3 100) # [seen 0 3 129,
     seen 0 3 130]))) = o_key (seen 4 20 100)) \<and>
   \<not> went (vwait_loop alt_hold [(seen 4 20 100), (seen 0 3 20)]) \<and>
   trace (vars_of (scan_f0_f1 radio20 0 [seen 0 20 100, turned 3 10 (seen 0 20 100), seen 0 3
     100, seen 0 3 100, turned 3 10 (seen 0 3 100), seen 0 3 129, seen 0 3 130, seen 0 3 130, seen
     0 3 130])) = [Program 23181800, Measure 14180000 20, Measure 14180000 20, Program 23181850,
     Measure 14180050 3, Clock 100, Clock 100, Program 23181900, Clock 129, Clock 130, Program
     23182000, Measure 14180200 3]"
proof -
  let ?r = "radio20"
  let ?v0 = "sweep_start"
  let ?u0 = "alt_start"
  let ?vs = "sweep_hold"
  let ?us = "alt_hold"
  let ?o1 = "seen 0 20 100"
  let ?ot = "turned 3 10 (seen 0 20 100)"
  let ?ok = "seen 4 20 100"
  let ?A = "[seen 0 21 100, seen 0 22 100]"
  let ?B = "[seen 0 20 100, seen 0 3 100, seen 0 3 100, seen 0 3 100, seen 0 3 129, seen 0 3 130, seen 0 3 100]"
  let ?C = "[seen 0 3 129, seen 0 3 130]"
  let ?o2 = "seen 0 21 100"
  let ?ol = "seen 0 3 100"
  let ?oe = "seen 0 3 20"
  let ?run = "[seen 0 20 100, turned 3 10 (seen 0 20 100), seen 0 3 100, seen 0 3 100, turned 3 10 (seen 0 3 100), seen 0 3 129, seen 0 3 130, seen 0 3 130, seen 0 3 130]"
  note A = scan_stop_and_dwell [where r = ?r and v = ?v0 and obs = ?A and ?o1.0 = ?o1 and ?wait0.0 = 0 and u = ?u0 and ?o2.0 = ?o2 and ?f0.0 = 14180000]
  note B = scan_stop_and_dwell [where r = ?r and v = ?v0 and obs = ?B and ?o1.0 = ?o1 and ?wait0.0 = 0 and u = ?u0 and ?o2.0 = ?o2 and ?f0.0 = 14180000]
  note T = scan_stop_and_dwell [where r = ?r and v = ?vs and obs = ?C and ?o1.0 = ?ot and ?wait0.0 = 0 and u = ?us and ?o2.0 = ?o2 and ?f0.0 = 14180000]
  note K = scan_stop_and_dwell [where r = ?r and v = ?vs and obs = ?C and ?o1.0 = ?ok and ?wait0.0 = 0 and u = ?us and ?o2.0 = ?ol and ?f0.0 = 14180000]
  note E = scan_stop_and_dwell [where r = ?r and v = ?vs and obs = ?C and ?o1.0 = ?ok and ?wait0.0 = 0 and u = ?us and ?o2.0 = ?oe and ?f0.0 = 14180000]
  have a: "\<forall>ob \<in> set ?A. thresh ?r <s o_sval ob \<and> o_key ob = 0" by code_simp
  have ar: "\<forall>ob \<in> set ?A. thresh ?r <s o_sval ob \<and> o_key ob = 0 \<and> o_knob ob = 0" by code_simp
  have b: "\<forall>ob \<in> set ?B. o_key ob = 0" by code_simp
  have q: "\<forall>ob \<in> set ?C. o_knob ob = 0" by code_simp
  have ht: "thresh ?r <s o_sval ?o1 \<and> o_key ?o1 = 0"
    by code_simp
  have hd: "f_vfo ?r (cur_band ?r) 0 \<noteq> f_vfo ?r (cur_band ?r) 1"
    by code_simp
  have c2: "pending (scan_f0_f1 ?r 0 (?o1 # ?A)) \<and> levels (trace (vars_of (scan_f0_f1 ?r 0 (?o1 # ?A)))) = [20, 21, 22]"
    proof -
    from A [THEN conjunct2, THEN conjunct1] ht hd a have "pending (scan_f0_f1 ?r 0 (?o1 # ?A)) \<and> levels (trace (vars_of (scan_f0_f1 ?r 0 (?o1 # ?A)))) = map o_sval (?o1 # ?A)" by blast
    then show ?thesis by (simp add: seen_def)
  qed
  have c6: "pending (scan_vfoa_vfob ?r (?o1 # ?A)) \<and> levels (vtrace (vars_of (scan_vfoa_vfob ?r (?o1 # ?A)))) = [20, 21, 22]"
    proof -
    from A [THEN conjunct2, THEN conjunct2, THEN conjunct2, THEN conjunct2, THEN conjunct2, THEN conjunct1] ht a have "pending (scan_vfoa_vfob ?r (?o1 # ?A)) \<and> levels (vtrace (vars_of (scan_vfoa_vfob ?r (?o1 # ?A)))) = map o_sval (?o1 # ?A)" by blast
    then show ?thesis by (simp add: seen_def)
  qed
  have hf: "(14180000 :: clong) = (if f_vfo ?r (cur_band ?r) 1 <s f_vfo ?r (cur_band ?r) 0 then f_vfo ?r (cur_band ?r) 1 else f_vfo ?r (cur_band ?r) 0)"
    by code_simp
  have he: "f_lo ?r (sideband ?r) = 9001800 \<and> f_vfo ?r (cur_band ?r) 0 = 14180000"
    by code_simp
  have c17: "trace (vars_of (scan_f0_f1 ?r 0 (?o1 # ?A))) = [Program 23181800, Measure 14180000 20, Measure 14180000 21, Measure 14180000 22]"
    proof -
    from A [THEN conjunct2, THEN conjunct2, THEN conjunct2, THEN conjunct2, THEN conjunct2, THEN conjunct2, THEN conjunct2, THEN conjunct2, THEN conjunct2, THEN conjunct2, THEN conjunct2, THEN conjunct2, THEN conjunct2, THEN conjunct2, THEN conjunct2, THEN conjunct2, THEN conjunct1] ht hd ar hf have "trace (vars_of (scan_f0_f1 ?r 0 (?o1 # ?A))) = Program (14180000 + f_lo ?r (sideband ?r)) # map (\<lambda>ob. Measure 14180000 (o_sval ob)) (?o1 # ?A)" by blast
    then show ?thesis using he by (simp add: seen_def)
  qed
  have c18: "vtrace (vars_of (scan_vfoa_vfob ?r (?o1 # ?A))) = [Program 23181800, Measure 14180000 20, Measure 14180000 21, Measure 14180000 22]"
    proof -
    from A [THEN conjunct2, THEN conjunct2, THEN conjunct2, THEN conjunct2, THEN conjunct2, THEN conjunct2, THEN conjunct2, THEN conjunct2, THEN conjunct2, THEN conjunct2, THEN conjunct2, THEN conjunct2, THEN conjunct2, THEN conjunct2, THEN conjunct2, THEN conjunct2, THEN conjunct2] ht ar have "vtrace (vars_of (scan_vfoa_vfob ?r (?o1 # ?A))) = Program (f_vfo ?r (cur_band ?r) 0 + f_lo ?r (sideband ?r)) # map (\<lambda>ob. Measure (f_vfo ?r (cur_band ?r) 0) (o_sval ob)) (?o1 # ?A)" by blast
    then show ?thesis using he by (simp add: seen_def)
  qed
  have hw: "went (scan_body ?r ?v0 (?o1 # ?B)) \<and> went (vscan_body ?u0 (?o1 # ?B))"
    by code_simp
  have hc: "clock_reads (after_measure (trace (state_of (scan_body ?r ?v0 (?o1 # ?B))))) = [100, 100, 129, 130]"
    by code_simp
  have c3: "(\<exists>c0 cs. clock_reads (after_measure (trace (state_of (scan_body ?r ?v0 (?o1 # ?B))))) = c0 # cs \<and> cs \<noteq> [] \<and> \<not> last cs <s c0 + 30 \<and> (sint c0 \<le> 2147483617 \<longrightarrow> sint c0 + 30 \<le> sint (last cs)))"
    using B [THEN conjunct2, THEN conjunct2, THEN conjunct1] hw ht b by blast
  have c7: "(\<exists>c \<in> set (butlast (clock_reads (after_measure (vtrace (state_of (vscan_body ?u0 (?o1 # ?B))))))). \<not> last (clock_reads (after_measure (vtrace (state_of (vscan_body ?u0 (?o1 # ?B)))))) <s c + 30)"
    using B [THEN conjunct2, THEN conjunct2, THEN conjunct2, THEN conjunct2, THEN conjunct2, THEN conjunct2, THEN conjunct1] hw b by blast
  have hs: "thresh ?r <s sval ?vs \<and> key ?vs = 0 \<and> tuned (fx ?vs) ?ot \<noteq> 0 \<and> thresh ?r <s o_sval ?ot \<and> o_key ?ot = 0 \<and> o_clock ?ot <s runsecs10thresh ?vs + 30"
    by code_simp
  have hv: "thresh (vr ?us) <s vsval ?us \<and> vkey ?us = 0 \<and> tuned (vfo_f ?us) ?ot \<noteq> 0 \<and> thresh (vr ?us) <s o_sval ?ot \<and> o_clock ?ot <s vthresh ?us + 30"
    by code_simp
  have hx: "tuned (fx ?vs) ?ot = 14180050 \<and> tuned (vfo_f ?us) ?ot = 14180050"
    by code_simp
  have c9a: "(\<exists>es. trace (state_of (stop_loop ?r ?vs (?ot # ?C))) = trace ?vs @ [Measure (fx ?vs) (o_sval ?ot), Program (tuned (fx ?vs) ?ot + f_lo ?r (sideband ?r))] @ es)"
    using T [THEN conjunct2, THEN conjunct2, THEN conjunct2, THEN conjunct2, THEN conjunct2, THEN conjunct2, THEN conjunct2, THEN conjunct2, THEN conjunct1] hs by blast
  have c9b: "(\<exists>es. trace (state_of (stop_loop ?r ?vs (?ot # ?o2 # ?C))) = trace ?vs @ [Measure (fx ?vs) (o_sval ?ot), Program (tuned (fx ?vs) ?ot + f_lo ?r (sideband ?r)), Measure (tuned (fx ?vs) ?ot) (o_sval ?o2)] @ es)"
    using T [THEN conjunct2, THEN conjunct2, THEN conjunct2, THEN conjunct2, THEN conjunct2, THEN conjunct2, THEN conjunct2, THEN conjunct2, THEN conjunct1] hs by blast
  have c10a: "(\<exists>es. trace (state_of (wait_loop ?r ?vs (?ot # ?C))) = trace ?vs @ [Clock (o_clock ?ot), Program (tuned (fx ?vs) ?ot + f_lo ?r (sideband ?r))] @ es)"
    using T [THEN conjunct2, THEN conjunct2, THEN conjunct2, THEN conjunct2, THEN conjunct2, THEN conjunct2, THEN conjunct2, THEN conjunct2, THEN conjunct2, THEN conjunct1] hs by blast
  have c10b: "fx (state_of (wait_loop ?r ?vs (?ot # ?C))) = tuned (fx ?vs) ?ot"
    using T [THEN conjunct2, THEN conjunct2, THEN conjunct2, THEN conjunct2, THEN conjunct2, THEN conjunct2, THEN conjunct2, THEN conjunct2, THEN conjunct2, THEN conjunct1] hs q by blast
  have c13a: "(\<exists>es. vtrace (state_of (vstop_loop ?us (?ot # ?C))) = vtrace ?us @ [Measure (vfo_f ?us) (o_sval ?ot), Program (tuned (vfo_f ?us) ?ot + f_lo (vr ?us) (sideband (vr ?us))), Clock (o_clock ?ot)] @ es)"
    using T [THEN conjunct2, THEN conjunct2, THEN conjunct2, THEN conjunct2, THEN conjunct2, THEN conjunct2, THEN conjunct2, THEN conjunct2, THEN conjunct2, THEN conjunct2, THEN conjunct2, THEN conjunct2, THEN conjunct1] hv by blast
  have c13b: "(\<exists>es. vtrace (state_of (vstop_loop ?us (?ot # ?o2 # ?C))) = vtrace ?us @ [Measure (vfo_f ?us) (o_sval ?ot), Program (tuned (vfo_f ?us) ?ot + f_lo (vr ?us) (sideband (vr ?us))), Clock (o_clock ?ot), Measure (tuned (vfo_f ?us) ?ot) (o_sval ?o2)] @ es)"
    using T [THEN conjunct2, THEN conjunct2, THEN conjunct2, THEN conjunct2, THEN conjunct2, THEN conjunct2, THEN conjunct2, THEN conjunct2, THEN conjunct2, THEN conjunct2, THEN conjunct2, THEN conjunct2, THEN conjunct1] hv hs by blast
  have c14a: "(\<exists>es. vtrace (state_of (vwait_loop ?us (?ot # ?C))) = vtrace ?us @ [Clock (o_clock ?ot), Program (tuned (vfo_f ?us) ?ot + f_lo (vr ?us) (sideband (vr ?us))), Clock (o_clock2 ?ot)] @ es)"
    using T [THEN conjunct2, THEN conjunct2, THEN conjunct2, THEN conjunct2, THEN conjunct2, THEN conjunct2, THEN conjunct2, THEN conjunct2, THEN conjunct2, THEN conjunct2, THEN conjunct2, THEN conjunct2, THEN conjunct2, THEN conjunct1] hv by blast
  have c14b: "vfo_f (state_of (vwait_loop ?us (?ot # ?C))) = tuned (vfo_f ?us) ?ot"
    using T [THEN conjunct2, THEN conjunct2, THEN conjunct2, THEN conjunct2, THEN conjunct2, THEN conjunct2, THEN conjunct2, THEN conjunct2, THEN conjunct2, THEN conjunct2, THEN conjunct2, THEN conjunct2, THEN conjunct2, THEN conjunct1] hv q by blast
  have hk: "o_key ?ok \<noteq> 0 \<and> o_knob ?ok = 0 \<and> o_clock ?ok <s runsecs10thresh ?vs + 30 \<and> o_clock ?ok <s vthresh ?us + 30 \<and> \<not> o_clock ?ol <s 30 \<and> o_clock ?oe <s 30"
    by code_simp
  have c11: "went (stop_loop ?r ?vs (?ok # ?C)) \<and> key (state_of (stop_loop ?r ?vs (?ok # ?C))) = o_key ?ok"
    using K [THEN conjunct2, THEN conjunct2, THEN conjunct2, THEN conjunct2, THEN conjunct2, THEN conjunct2, THEN conjunct2, THEN conjunct2, THEN conjunct2, THEN conjunct2, THEN conjunct1] hs hk by blast
  have c12a: "went (wait_loop ?r ?vs (?ok # ?ol # ?C)) \<and> key (state_of (wait_loop ?r ?vs (?ok # ?ol # ?C))) = o_key ?ok"
    using K [THEN conjunct2, THEN conjunct2, THEN conjunct2, THEN conjunct2, THEN conjunct2, THEN conjunct2, THEN conjunct2, THEN conjunct2, THEN conjunct2, THEN conjunct2, THEN conjunct2, THEN conjunct1] hk by blast
  have c12b: "\<not> went (wait_loop ?r ?vs [?ok, ?oe])"
    using E [THEN conjunct2, THEN conjunct2, THEN conjunct2, THEN conjunct2, THEN conjunct2, THEN conjunct2, THEN conjunct2, THEN conjunct2, THEN conjunct2, THEN conjunct2, THEN conjunct2, THEN conjunct1] hk by blast
  have c15: "went (vstop_loop ?us (?ok # ?C)) \<and> vkey (state_of (vstop_loop ?us (?ok # ?C))) = o_key ?ok"
    using K [THEN conjunct2, THEN conjunct2, THEN conjunct2, THEN conjunct2, THEN conjunct2, THEN conjunct2, THEN conjunct2, THEN conjunct2, THEN conjunct2, THEN conjunct2, THEN conjunct2, THEN conjunct2, THEN conjunct2, THEN conjunct2, THEN conjunct1] hv hk by blast
  have c16a: "went (vwait_loop ?us (?ok # ?ol # ?C)) \<and> vkey (state_of (vwait_loop ?us (?ok # ?ol # ?C))) = o_key ?ok"
    using K [THEN conjunct2, THEN conjunct2, THEN conjunct2, THEN conjunct2, THEN conjunct2, THEN conjunct2, THEN conjunct2, THEN conjunct2, THEN conjunct2, THEN conjunct2, THEN conjunct2, THEN conjunct2, THEN conjunct2, THEN conjunct2, THEN conjunct2, THEN conjunct1] hk by blast
  have c16b: "\<not> went (vwait_loop ?us [?ok, ?oe])"
    using E [THEN conjunct2, THEN conjunct2, THEN conjunct2, THEN conjunct2, THEN conjunct2, THEN conjunct2, THEN conjunct2, THEN conjunct2, THEN conjunct2, THEN conjunct2, THEN conjunct2, THEN conjunct2, THEN conjunct2, THEN conjunct2, THEN conjunct2, THEN conjunct1] hk by blast
  have hrun: "trace (vars_of (scan_f0_f1 ?r 0 ?run)) = [Program 23181800, Measure 14180000 20, Measure 14180000 20, Program 23181850, Measure 14180050 3, Clock 100, Clock 100, Program 23181900, Clock 129, Clock 130, Program 23182000, Measure 14180200 3]"
    by code_simp
  show ?thesis
    by (rule conjI [OF ht conjI [OF hd conjI [OF c2 conjI [OF c6 conjI [OF hf conjI [OF he conjI [OF c17 conjI [OF c18 conjI [OF hw conjI [OF hc conjI [OF c3 conjI [OF c7 conjI [OF hs conjI [OF hv conjI [OF hx conjI [OF c9a conjI [OF c9b conjI [OF c10a conjI [OF c10b conjI [OF c13a conjI [OF c13b conjI [OF c14a conjI [OF c14b conjI [OF hk conjI [OF c11 conjI [OF c12a conjI [OF c12b conjI [OF c15 conjI [OF c16a conjI [OF c16b hrun]]]]]]]]]]]]]]]]]]]]]]]]]]]]]])
qed

text \<open>
  Claim C7 as the specification words it does not hold: a key pressed during the dwell sets
  its reference to 0 (\<open>//Fast out!\<close>). Here the level falls to 3 at tick 100, key 4 is
  pressed while the scanner waits, and the sweep moves on to 14.1801 MHz with the tick counter
  still at 100.
\<close>

theorem scan_dwell_counterexample:
  "thresh (startup (power_on blank_eeprom)) = 8 \<and>
   trace (vars_of (scan_f0_f1 (startup (power_on blank_eeprom)) 0
       [seen 0 20 100,
        seen 0 20 100,
        seen 0 3 100,
        seen 0 3 100,
        seen 4 3 100,
        seen 0 3 100,
        seen 0 3 100,
        seen 0 3 100])) =
     [Program 23181800, Measure 14180000 20, Measure 14180000 20, Measure 14180000 3,
      Clock 100, Clock 100, Clock 100, Program 23181900, Measure 14180100 3]"
  by code_simp

section \<open>Leaving the edge-to-edge scan\<close>

text \<open>
  The keys are read only inside the body of the \<open>for\<close> loop. With equal VFO frequencies the
  body is never entered and the outer \<open>while(key != 2)\<close> goes round with \<open>key = 0\<close>.
\<close>

lemma sweep_equal_spins:
  "\<not> f0 <s f1 \<Longrightarrow> fx v = f0 \<Longrightarrow> key v = 0 \<Longrightarrow> sweep r f0 f1 v obs = Spins v"
  by (subst sweep.simps) simp

lemma scan_f0_f1_equal_spins:
  assumes "f_vfo r (cur_band r) 0 = f_vfo r (cur_band r) 1"
  shows "scan_f0_f1 r wait0 obs =
           Spins \<lparr>fx = f_vfo r (cur_band r) 0, key = 0, sval = 0, wait = wait0,
                  runsecs10thresh = 0, trace = []\<rparr>"
  using assms by (simp add: scan_f0_f1_def Let_def sweep_equal_spins)

lemma sweep_returned:
  "sweep r f0 f1 v obs = Returned x v' \<Longrightarrow> key v = 0 \<Longrightarrow>
   key v' = 2 \<and> x = fx v' \<or> key v' = 3 \<and> x = 0"
proof (induction r f0 f1 v obs rule: sweep.induct)
  case (1 r f0 f1 v obs)
  note unf = sweep.simps [of r f0 f1 v obs]
  show ?case
  proof (cases "fx v <s f1")
    case True
    show ?thesis
    proof (cases "scan_body r v obs")
      case (Starved u)
      then show ?thesis using True "1.prems"(1) by (simp add: unf)
    next
      case (Went u obs')
      show ?thesis
      proof (cases "key u = 2 \<or> key u = 3")
        case True
        then show ?thesis using \<open>fx v <s f1\<close> Went "1.prems"(1) by (auto simp: unf)
      next
        case False
        then have k: "key u \<noteq> 2" "key u \<noteq> 3" by simp_all
        have "sweep r f0 f1 (u\<lparr>key := 0, fx := fx u + 100\<rparr>) obs' = Returned x v'"
          using True Went k "1.prems"(1) by (simp add: unf)
        from "1.IH"(1) [OF True Went k this] show ?thesis by simp
      qed
    qed
  next
    case False
    show ?thesis
    proof (cases "f0 <s f1")
      case True
      have "sweep r f0 f1 (v\<lparr>fx := f0\<rparr>) obs = Returned x v'"
        using False True "1.prems" by (simp add: unf)
      from "1.IH"(2) [OF False _ True this] show ?thesis using "1.prems"(2) by simp
    next
      case f: False
      then show ?thesis using False "1.prems" by (simp add: unf)
    qed
  qed
qed

lemma scan_f0_f1_returned:
  "scan_f0_f1 r wait0 obs = Returned x v' \<Longrightarrow> key v' = 2 \<and> x = fx v' \<or> key v' = 3 \<and> x = 0"
  unfolding scan_f0_f1_def Let_def by (erule sweep_returned) simp

text \<open>
  Claim C6, where the code departs from it. After a start from a blank EEPROM and a change to
  the 80 m band both VFO frequencies of the band are 3.65 MHz. Whatever keys are pressed
  afterwards and whatever \<open>wait\<close> holds, \<open>scan_f0_f1\<close> then reads nothing, programs nothing and
  never returns: the accept key and the abort key do not end the scan. On 20 m, where the
  VFO frequencies differ, the accept key returns the probe frequency 14.18 MHz.
\<close>

theorem scan_f0_f1_equal_vfos_hang:
  "cur_band (band_change_menu 0 (startup (power_on blank_eeprom))) = 0 \<and>
   f_vfo (band_change_menu 0 (startup (power_on blank_eeprom))) 0 0 = 3650000 \<and>
   f_vfo (band_change_menu 0 (startup (power_on blank_eeprom))) 0 1 = 3650000 \<and>
   scan_f0_f1 (band_change_menu 0 (startup (power_on blank_eeprom))) wait0 obs =
     Spins \<lparr>fx = 3650000, key = 0, sval = 0, wait = wait0, runsecs10thresh = 0, trace = []\<rparr> \<and>
   result_of (scan_f0_f1 (band_change_menu 0 (startup (power_on blank_eeprom))) wait0 obs) = None \<and>
   \<not> pending (scan_f0_f1 (band_change_menu 0 (startup (power_on blank_eeprom))) wait0 obs) \<and>
   result_of (scan_f0_f1 (startup (power_on blank_eeprom)) 0
       [seen 2 0 100, seen 2 0 100, seen 2 0 100]) = Some 14180000"
proof -
  let ?r = "band_change_menu 0 (startup (power_on blank_eeprom))"
  have b: "cur_band ?r = 0" by code_simp
  have a: "f_vfo ?r 0 0 = 3650000" by code_simp
  have c: "f_vfo ?r 0 1 = 3650000" by code_simp
  have e: "f_vfo ?r (cur_band ?r) 0 = f_vfo ?r (cur_band ?r) 1" using a b c by simp
  have s: "scan_f0_f1 ?r wait0 obs =
     Spins \<lparr>fx = 3650000, key = 0, sval = 0, wait = wait0, runsecs10thresh = 0, trace = []\<rparr>"
    using scan_f0_f1_equal_spins [OF e, of wait0 obs] a b by simp
  have g: "result_of (scan_f0_f1 (startup (power_on blank_eeprom)) 0
       [seen 2 0 100, seen 2 0 100, seen 2 0 100]) = Some 14180000"
    by code_simp
  show ?thesis using a b c s g by simp
qed

section \<open>The accuracy of the tuning word\<close>

text \<open>
  Every rounding of the floating-point model is off by at most half a unit in the last of
  the 24 bits, which is a relative error of at most \<open>2 ^ - 24\<close>.
\<close>

lemma rne_half:
  assumes "0 < d"
  shows "\<bar>real_of_int (rne n d) - real_of_int n / real_of_int d\<bar> \<le> 1 / 2"
proof -
  define q where "q = n div d"
  define r where "r = n mod d"
  have n: "real_of_int n = real_of_int d * real_of_int q + real_of_int r"
    unfolding q_def r_def by (metis mult_div_mod_eq of_int_add of_int_mult)
  have r: "0 \<le> r" "r < d" using assms by (simp_all add: r_def)
  have dq: "real_of_int n / real_of_int d = real_of_int q + real_of_int r / real_of_int d"
    using assms by (simp add: n field_simps)
  show ?thesis
  proof (cases "2 * r < d \<or> (2 * r = d \<and> even q)")
    case True
    then have e: "rne n d = q" by (simp add: rne_def Let_def q_def r_def)
    from True have "2 * r \<le> d" by auto
    then have "real_of_int r / real_of_int d \<le> 1 / 2" using assms by (simp add: field_simps)
    moreover have "0 \<le> real_of_int r / real_of_int d" using r assms by simp
    ultimately show ?thesis by (simp add: e dq)
  next
    case False
    then have e: "rne n d = q + 1" by (simp add: rne_def Let_def q_def r_def)
    from False have "d \<le> 2 * r" by auto
    then have "1 / 2 \<le> real_of_int r / real_of_int d" using assms by (simp add: field_simps)
    moreover have "real_of_int r / real_of_int d \<le> 1" using r assms by (simp add: field_simps)
    ultimately show ?thesis by (simp add: e dq)
  qed
qed

lemma pow2_ratio:
  "real_of_int (2 ^ nat s) / real_of_int (2 ^ nat (- s)) = 2 powr real_of_int s"
proof (cases "0 \<le> s")
  case True
  then show ?thesis by (simp add: powr_realpow [symmetric])
next
  case False
  then have "2 powr real_of_int s = 1 / 2 powr real_of_int (- s)"
    by (simp add: powr_minus_divide)
  also have "\<dots> = 1 / 2 ^ nat (- s)"
    using False by (simp add: powr_realpow [symmetric])
  finally show ?thesis using False by simp
qed

lemma bitlen_powr:
  assumes "0 < x"
  shows "2 powr real_of_int (bitlen x - 1) \<le> real_of_int x"
    and "real_of_int x < 2 powr real_of_int (bitlen x)"
proof -
  from bitlen_bounds [OF assms] have a: "2 ^ nat (bitlen x - 1) \<le> x" and b: "x < 2 ^ nat (bitlen x)"
    by simp_all
  have p: "0 < bitlen x" using assms b by (cases "0 < bitlen x") auto
  have "real_of_int (2 ^ nat (bitlen x - 1)) \<le> real_of_int x" using a by linarith
  then show "2 powr real_of_int (bitlen x - 1) \<le> real_of_int x"
    using p by (simp add: powr_realpow [symmetric])
  have "real_of_int x < real_of_int (2 ^ nat (bitlen x))" using b by linarith
  then show "real_of_int x < 2 powr real_of_int (bitlen x)"
    using p by (simp add: powr_realpow [symmetric])
qed

lemma round24_rel:
  assumes "0 < n" "0 < d"
  shows "\<bar>float_value (round24 n d) - real_of_int n / real_of_int d\<bar>
           \<le> real_of_int n / real_of_int d / 2 ^ 24"
    and "0 < fst (round24 n d)"
proof -
  define k where "k = bitlen \<bar>n\<bar> - bitlen d"
  define s where "s = (if \<bar>n\<bar> * 2 ^ nat (24 - k) < 2 ^ 24 * (d * 2 ^ nat (k - 24))
                    then 24 - k else 23 - k)"
  define N where "N = n * 2 ^ nat s"
  define D where "D = d * 2 ^ nat (- s)"
  define x where "x = real_of_int n / real_of_int d"
  have r: "round24 n d = (rne N D, - s)"
    using assms by (simp add: round24_def Let_def k_def s_def N_def D_def)
  have D: "0 < D" using assms by (simp add: D_def)
  have x: "0 < x" using assms by (simp add: x_def)
  have ND: "real_of_int N / real_of_int D = x * 2 powr real_of_int s"
  proof -
    have "real_of_int N / real_of_int D =
            x * (real_of_int (2 ^ nat s) / real_of_int (2 ^ nat (- s)))"
      by (simp add: N_def D_def x_def)
    then show ?thesis by (simp only: pow2_ratio)
  qed
  have lo: "2 powr real_of_int (k - 1) < x"
  proof -
    have a: "2 powr real_of_int (bitlen n - 1) \<le> real_of_int n" using bitlen_powr(1) assms by simp
    have b: "real_of_int d < 2 powr real_of_int (bitlen d)" using bitlen_powr(2) assms by simp
    have "real_of_int (k - 1) = real_of_int (bitlen n - 1) - real_of_int (bitlen d)"
      using assms by (simp add: k_def)
    then have "2 powr real_of_int (k - 1) = 2 powr real_of_int (bitlen n - 1) / 2 powr real_of_int (bitlen d)"
      by (simp only: powr_diff)
    also have "\<dots> \<le> real_of_int n / 2 powr real_of_int (bitlen d)"
      using a by (simp add: divide_right_mono)
    also have "\<dots> < real_of_int n / real_of_int d"
      using b assms by (simp add: divide_strict_left_mono)
    finally show ?thesis by (simp add: x_def)
  qed
  have big: "2 ^ 23 \<le> x * 2 powr real_of_int s"
  proof (cases "\<bar>n\<bar> * 2 ^ nat (24 - k) < 2 ^ 24 * (d * 2 ^ nat (k - 24))")
    case True
    then have s: "s = 24 - k" by (simp add: s_def)
    have "(2::real) ^ 23 = 2 powr real_of_int (k - 1) * 2 powr real_of_int (24 - k)"
      by (simp add: powr_add [symmetric])
    also have "\<dots> \<le> x * 2 powr real_of_int (24 - k)"
      using lo by (simp add: mult_right_mono)
    finally show ?thesis by (simp add: s)
  next
    case False
    then have s: "s = 23 - k" by (simp add: s_def)
    from False have "2 ^ 24 * (d * 2 ^ nat (k - 24)) \<le> n * 2 ^ nat (24 - k)"
      using assms by simp
    then have "real_of_int (2 ^ 24 * (d * 2 ^ nat (k - 24))) \<le> real_of_int (n * 2 ^ nat (24 - k))"
      by linarith
    then have "2 ^ 24 * real_of_int (2 ^ nat (- (24 - k)))
                 \<le> x * real_of_int (2 ^ nat (24 - k))"
      using assms by (simp add: x_def field_simps)
    then have "2 ^ 24 \<le> x * (real_of_int (2 ^ nat (24 - k)) / real_of_int (2 ^ nat (- (24 - k))))"
      by (simp add: field_simps)
    then have "2 ^ 24 \<le> x * 2 powr real_of_int (24 - k)" by (simp only: pow2_ratio)
    moreover have "2 powr real_of_int (24 - k) = 2 * 2 powr real_of_int (23 - k)"
    proof -
      have "(2::real) * 2 powr real_of_int (23 - k) = 2 powr 1 * 2 powr real_of_int (23 - k)" by simp
      also have "\<dots> = 2 powr (1 + real_of_int (23 - k))" by (simp only: powr_add)
      finally show ?thesis by simp
    qed
    ultimately show ?thesis by (simp add: s)
  qed
  have h: "\<bar>real_of_int (rne N D) - real_of_int N / real_of_int D\<bar> \<le> 1 / 2"
    by (rule rne_half [OF D])
  have p: "0 < 2 powr real_of_int (- s)" by simp
  have inv: "2 powr real_of_int s * 2 powr real_of_int (- s) = 1"
    by (simp add: powr_add [symmetric])
  have "\<bar>float_value (round24 n d) - x\<bar>
          = \<bar>real_of_int (rne N D) - x * 2 powr real_of_int s\<bar> * 2 powr real_of_int (- s)"
  proof -
    have "float_value (round24 n d) - x
            = (real_of_int (rne N D) - x * 2 powr real_of_int s) * 2 powr real_of_int (- s)"
      using inv by (simp add: r float_value_def algebra_simps)
    then show ?thesis by (simp add: abs_mult)
  qed
  also have "\<dots> \<le> 1 / 2 * 2 powr real_of_int (- s)"
    using h p by (simp add: ND mult_right_mono)
  also have "\<dots> \<le> (x * 2 powr real_of_int s / 2 ^ 24) * 2 powr real_of_int (- s)"
    using big p by (simp add: mult_right_mono)
  also have "\<dots> = x / 2 ^ 24" using inv by (simp add: algebra_simps)
  finally show "\<bar>float_value (round24 n d) - real_of_int n / real_of_int d\<bar>
           \<le> real_of_int n / real_of_int d / 2 ^ 24"
    by (simp add: x_def)
  have "\<bar>real_of_int (rne N D) - x * 2 powr real_of_int s\<bar> \<le> 1 / 2"
    using h by (simp only: ND)
  then have "real_of_int (rne N D) \<ge> x * 2 powr real_of_int s - 1 / 2" by linarith
  then have "real_of_int (rne N D) > 0" using big by simp
  then show "0 < fst (round24 n d)" by (simp add: r)
qed


lemma float_div_rel:
  assumes "0 < fst a" "0 < fst b"
  shows "\<bar>float_value (float_div a b) - float_value a / float_value b\<bar>
           \<le> float_value a / float_value b / 2 ^ 24"
    and "0 < fst (float_div a b)"
proof -
  define c where "c = 2 powr real_of_int (snd a - snd b)"
  define x where "x = real_of_int (fst a) / real_of_int (fst b)"
  have c: "0 < c" by (simp add: c_def)
  have q: "float_value a / float_value b = x * c"
    by (simp add: float_value_def c_def x_def powr_diff)
  have v: "float_value (float_div a b) = float_value (round24 (fst a) (fst b)) * c"
  proof -
    have "real_of_int (snd (round24 (fst a) (fst b)) + snd a - snd b)
            = real_of_int (snd (round24 (fst a) (fst b))) + real_of_int (snd a - snd b)"
      by simp
    then have "2 powr real_of_int (snd (round24 (fst a) (fst b)) + snd a - snd b)
            = 2 powr real_of_int (snd (round24 (fst a) (fst b))) * c"
      by (simp only: powr_add c_def)
    then show ?thesis
      by (simp add: float_div_def float_value_def split_beta Let_def)
  qed
  have "\<bar>float_value (float_div a b) - float_value a / float_value b\<bar>
          = \<bar>float_value (round24 (fst a) (fst b)) - x\<bar> * c"
  proof -
    have "float_value (float_div a b) - float_value a / float_value b
            = (float_value (round24 (fst a) (fst b)) - x) * c"
      by (simp add: v q algebra_simps)
    then show ?thesis using c by (simp add: abs_mult)
  qed
  also have "\<dots> \<le> (x / 2 ^ 24) * c"
  proof (rule mult_right_mono)
    show "\<bar>float_value (round24 (fst a) (fst b)) - x\<bar> \<le> x / 2 ^ 24"
      using round24_rel(1) [OF assms] by (simp only: x_def)
    show "0 \<le> c" using c by simp
  qed
  finally show "\<bar>float_value (float_div a b) - float_value a / float_value b\<bar>
           \<le> float_value a / float_value b / 2 ^ 24"
    by (simp add: q)
  show "0 < fst (float_div a b)"
    using round24_rel(2) [OF assms] by (simp add: float_div_def split_beta Let_def)
qed

lemma float_times_65536_value:
  "float_value (float_times_65536 a) = float_value a * 65536"
proof -
  have "2 powr (real_of_int (snd a) + 16) = 2 powr real_of_int (snd a) * 2 powr 16"
    by (simp only: powr_add)
  also have "(2::real) powr 16 = 2 ^ 16" by (simp add: powr_realpow [symmetric])
  finally show ?thesis by (simp add: float_times_65536_def float_value_def)
qed

lemma float_times_65536_fst: "fst (float_times_65536 a) = fst a"
  by (simp add: float_times_65536_def)

lemma long_of_float_floor:
  assumes "0 < fst a" "float_value a < 2 ^ 31"
  shows "long_of_float a = Some (word_of_int \<lfloor>float_value a\<rfloor>)"
    and "0 \<le> \<lfloor>float_value a\<rfloor>" and "\<lfloor>float_value a\<rfloor> < 2 ^ 31"
proof -
  define t where "t = (fst a * 2 ^ nat (snd a)) div 2 ^ nat (- snd a)"
  have "float_value a = real_of_int (fst a) * (real_of_int (2 ^ nat (snd a)) / real_of_int (2 ^ nat (- snd a)))"
    by (simp only: pow2_ratio float_value_def)
  also have "\<dots> = real_of_int (fst a * 2 ^ nat (snd a)) / real_of_int (2 ^ nat (- snd a))"
    by simp
  finally have "\<lfloor>float_value a\<rfloor> = t"
    by (simp only: floor_divide_of_int_eq t_def)
  then have f: "t = \<lfloor>float_value a\<rfloor>" by simp
  have nn: "0 \<le> float_value a" using assms(1) by (simp add: float_value_def)
  then show 0: "0 \<le> \<lfloor>float_value a\<rfloor>" by simp
  have "real_of_int \<lfloor>float_value a\<rfloor> \<le> float_value a" by simp
  then have "real_of_int \<lfloor>float_value a\<rfloor> < 2 ^ 31" using assms(2) by linarith
  then have "real_of_int \<lfloor>float_value a\<rfloor> < real_of_int (2 ^ 31)" by simp
  then show 1: "\<lfloor>float_value a\<rfloor> < 2 ^ 31" by (simp only: of_int_less_iff)
  have "long_of_float a = (if - (2 ^ 31) \<le> t \<and> t < 2 ^ 31 then Some (word_of_int t) else None)"
    using assms(1) by (simp add: long_of_float_def Let_def t_def)
  then show "long_of_float a = Some (word_of_int \<lfloor>float_value a\<rfloor>)"
    using 0 1 by (simp add: f)
qed


lemma float_of_clk: "float_of_long 125000000 = (15625000, 3)"
  by code_simp

lemma float_value_clk: "float_value (15625000, 3) = 125000000"
proof -
  have "(2::real) powr 3 = 2 ^ 3" by (simp add: powr_realpow [symmetric])
  then show ?thesis by (simp add: float_value_def)
qed

lemma fword1_error:
  assumes "0 <s x" "x \<le>s 31250000"
  shows "\<exists>w. fword1 x = Some w \<and> 0 < sint w \<and>
           \<bar>sint w * 125000000 - sint x * 2 ^ 32\<bar> \<le> 513 * sint x + 125000000"
proof -
  define f where "f = sint x"
  have f: "0 < f" "f \<le> 31250000"
    using assms by (simp_all add: f_def word_sless_alt word_sle_eq)
  define vF where "vF = float_value (float_of_long x)"
  define Q where "Q = float_div (float_of_long x) (float_of_long 125000000)"
  define W where "W = float_value (float_times_65536 (fword0 x))"
  have F: "\<bar>vF - real_of_int f\<bar> \<le> real_of_int f / 2 ^ 24" and Fp: "0 < fst (float_of_long x)"
    using round24_rel [of f 1] f(1) by (simp_all add: vF_def float_of_long_def f_def)
  have Cp: "0 < fst (float_of_long 125000000)" by (simp add: float_of_clk)
  have Qr: "\<bar>float_value Q - vF / 125000000\<bar> \<le> vF / 125000000 / 2 ^ 24"
    using float_div_rel(1) [OF Fp Cp] by (simp add: Q_def vF_def float_of_clk float_value_clk)
  have Qp: "0 < fst Q" using float_div_rel(2) [OF Fp Cp] by (simp add: Q_def)
  have W: "W = float_value Q * 4294967296"
    by (simp add: W_def fword0_def float_times_65536_value Q_def)
  have Wp: "0 < fst (float_times_65536 (fword0 x))"
    using Qp by (simp add: fword0_def float_times_65536_fst Q_def)
  have err: "\<bar>W * 125000000 - real_of_int f * 4294967296\<bar> \<le> real_of_int f * (512 + 1 / 65536)"
    using F Qr unfolding W by (simp add: abs_le_iff) argo
  have fr: "1 \<le> real_of_int f" "real_of_int f \<le> 31250000" using f by simp_all
  have err': "W * 125000000 - real_of_int f * 4294967296 \<le> real_of_int f * (512 + 1 / 65536)"
    "- (real_of_int f * (512 + 1 / 65536)) \<le> W * 125000000 - real_of_int f * 4294967296"
    using err by (simp_all only: abs_le_iff) linarith+
  have Wlt: "W < 2147483648" using err' fr by argo
  then have Wlt: "W < 2 ^ 31" by simp
  have Wgt: "1 \<le> W" using err' fr by argo
  define t where "t = \<lfloor>W\<rfloor>"
  note L = long_of_float_floor [OF Wp Wlt [unfolded W_def], folded W_def t_def]
  have w: "fword1 x = Some (word_of_int t)" using L(1) by (simp add: fword1_def W_def t_def)
  have ts: "sint (word_of_int t :: clong) = t"
    using L(2,3) by (simp add: sint_sbintrunc' signed_take_bit_int_eq_self)
  have t1: "real_of_int t \<le> W" "W < real_of_int t + 1" by (simp_all add: t_def)
  have tp: "0 < t" using Wgt by (simp add: t_def)
  have "\<bar>real_of_int t * 125000000 - real_of_int f * 4294967296\<bar>
          \<le> real_of_int f * 513 + 125000000"
    using err' t1 fr by (simp only: abs_le_iff) argo
  then have "real_of_int \<bar>t * 125000000 - f * 4294967296\<bar> \<le> real_of_int (f * 513 + 125000000)"
    by simp
  then have "\<bar>t * 125000000 - f * 4294967296\<bar> \<le> f * 513 + 125000000"
    by (simp only: of_int_le_iff)
  then show ?thesis using w ts tp by (simp add: f_def mult.commute)
qed

lemma band_range:
  assumes "0 \<le>s b" "b \<le>s 4" "band_f0 b \<le>s f" "f \<le>s band_f1 b"
  shows "3490000 \<le> sint f" "sint f \<le> 21460000"
proof -
  from band_cases [OF assms(1,2)] have "b = 0 \<or> b = 1 \<or> b = 2 \<or> b = 3 \<or> b = 4" .
  then show "3490000 \<le> sint f" "sint f \<le> 21460000"
    using assms(3,4) by (auto simp: band_f0_def band_f1_def word_sle_eq)
qed

text \<open>
  Claim C1, as amended. For every band \<open>b\<close> in \<open>[0, 4]\<close> and every frequency \<open>f\<close> between the
  edges of the band, \<open>set_frequency_ad9850\<close> computes a tuning word \<open>w\<close>: the scaling by
  \<open>2^32\<close> is done in two steps of \<open>2^16\<close> in 32-bit floating point and the conversion to
  \<open>long\<close> is defined. The word is positive, so it is never 0, and

  \<^item> \<open>\<bar>w * 125000000 - f * 2^32\<bar> \<le> 513 * f + 125000000\<close>: two roundings to 24 bits and the
    cut to an integer;
  \<^item> \<open>\<bar>w * 125000000 - f * 2^32\<bar> \<le> 90 * 125000000\<close>: the word is within 90 steps of
    \<open>f / 125000000 * 2^32\<close>, and the frequency \<open>w * 125000000 / 2^32\<close> that it stands for is
    within 90 steps of the resolution \<open>125000000 / 2^32\<close> Hz of \<open>f\<close>;
  \<^item> \<open>\<bar>w * 125000000 - f * 2^32\<bar> < 3 * 2^32\<close>: that frequency is less than 3 Hz from \<open>f\<close>.
\<close>

theorem tuning_word_accuracy:
  assumes "0 \<le>s b" "b \<le>s 4" "band_f0 b \<le>s f" "f \<le>s band_f1 b"
  shows "\<exists>w. fword1 f = Some w \<and> 0 < sint w \<and>
           \<bar>sint w * 125000000 - sint f * 2 ^ 32\<bar> \<le> 513 * sint f + 125000000 \<and>
           \<bar>sint w * 125000000 - sint f * 2 ^ 32\<bar> \<le> 90 * 125000000 \<and>
           \<bar>sint w * 125000000 - sint f * 2 ^ 32\<bar> < 3 * 2 ^ 32"
proof -
  note r = band_range [OF assms]
  have "0 <s f" "f \<le>s 31250000" using r by (simp_all add: word_sless_alt word_sle_eq)
  from fword1_error [OF this] obtain w where
    w: "fword1 f = Some w" "0 < sint w"
       "\<bar>sint w * 125000000 - sint f * 2 ^ 32\<bar> \<le> 513 * sint f + 125000000"
    by blast
  have "513 * sint f + 125000000 \<le> 90 * 125000000" using r(2) by simp
  then have b: "\<bar>sint w * 125000000 - sint f * 2 ^ 32\<bar> \<le> 90 * 125000000"
    using w(3) by linarith
  then have "\<bar>sint w * 125000000 - sint f * 2 ^ 32\<bar> < 3 * 2 ^ 32" by simp
  then show ?thesis using w b by blast
qed

text \<open>The theorem at work on 3.65 MHz in the 80 m band, where the firmware sends 125413048.\<close>

theorem tuning_word_accuracy_witness:
  "(0::cint) \<le>s 0 \<and> (0::cint) \<le>s 4 \<and> band_f0 0 \<le>s 3650000 \<and> 3650000 \<le>s band_f1 0 \<and>
   fword1 3650000 = Some 125413048 \<and>
   \<bar>sint (125413048 :: clong) * 125000000 - sint (3650000 :: clong) * 2 ^ 32\<bar>
     \<le> 513 * sint (3650000 :: clong) + 125000000"
proof -
  have h: "(0::cint) \<le>s 0" "(0::cint) \<le>s 4" "band_f0 0 \<le>s 3650000" "3650000 \<le>s band_f1 0"
    by (simp_all add: band_f0_def band_f1_def word_sle_eq)
  have e: "fword1 3650000 = Some 125413048" by code_simp
  from tuning_word_accuracy [OF h] e
  have "\<bar>sint (125413048 :: clong) * 125000000 - sint (3650000 :: clong) * 2 ^ 32\<bar>
     \<le> 513 * sint (3650000 :: clong) + 125000000"
    by auto
  then show ?thesis using h e by blast
qed

text \<open>
  Claim C1 as the specification words it does not hold. The word nearest to
  \<open>3650000 / 125000000 * 2^32\<close> is 125413045 and the firmware computes 125413048. This is
  three steps away from the nearest word, and the frequency it stands for is more than one
  step of the resolution away from 3650000 Hz.
\<close>

theorem tuning_word_counterexample:
  "(0::cint) \<le>s 0 \<and> (0::cint) \<le>s 4 \<and> band_f0 0 \<le>s 3650000 \<and> 3650000 \<le>s band_f1 0 \<and>
   fword1 3650000 = Some 125413048 \<and>
   nearest_word 3650000 = 125413045 \<and>
   \<not> \<bar>sint (125413048 :: clong) - nearest_word 3650000\<bar> \<le> 1 \<and>
   \<not> \<bar>sint (125413048 :: clong) * 125000000 - sint (3650000 :: clong) * 2 ^ 32\<bar> \<le> 125000000"
proof -
  have h: "(0::cint) \<le>s 0" "(0::cint) \<le>s 4" "band_f0 0 \<le>s 3650000" "3650000 \<le>s band_f1 0"
    by (simp_all add: band_f0_def band_f1_def word_sle_eq)
  have e: "fword1 3650000 = Some 125413048" by code_simp
  have n: "nearest_word 3650000 = 125413045"
    by (simp add: nearest_word_def round_def floor_eq_iff)
  show ?thesis using h e n by simp
qed

end
